theory Spec2Isabelle
  imports Main
begin

section \<open>Order-book depth loader (package depth, loader.go)\<close>

text \<open>
  A shallow embedding of \<^verbatim>\<open>depth/loader.go\<close>. Go panics are values of the type \<open>error\<close>
  on the left of a sum; the mutable \<^verbatim>\<open>CCDepthLoader\<close> is a record that every operation
  returns updated; \<^verbatim>\<open>map[Pair][]string\<close> is a partial map (the code never stores a nil
  slice, so a nil lookup result is exactly an absent key).
\<close>

subsection \<open>Errors\<close>

datatype error =
    IndexOutOfRange            \<comment> \<open>\<^verbatim>\<open>panic("index out of range")\<close> in GetDepth\<close>
  | SliceBounds                \<comment> \<open>Go runtime panic: slice or index expression out of bounds\<close>
  | ParseFloatError            \<comment> \<open>\<^verbatim>\<open>panic(err)\<close> in mustParseFloat\<close>
  | CsvFieldCount              \<comment> \<open>\<^verbatim>\<open>panic(err)\<close> with csv.ErrFieldCount in readDepthRecordsFromFile\<close>
  | Corrupted string           \<comment> \<open>\<^verbatim>\<open>panic("file is corrupted: ... at pair " + pair)\<close>\<close>
  | RangeMismatch              \<comment> \<open>\<^verbatim>\<open>panic("file history length does not match ...")\<close>\<close>
  | WrongNumberOfRecords nat   \<comment> \<open>\<^verbatim>\<open>panic("wrong number of records: " + n)\<close>\<close>
  | RemoteFailure              \<comment> \<open>any panic of getURL, http.Get or gzip.NewReader\<close>

subsection \<open>Strings\<close>

text \<open>\<^verbatim>\<open>strings.HasPrefix\<close> and \<^verbatim>\<open>strings.Contains\<close>.\<close>

fun HasPrefix :: "string \<Rightarrow> string \<Rightarrow> bool" where
  "HasPrefix s [] = True"
| "HasPrefix [] (c # sub) = False"
| "HasPrefix (x # s) (c # sub) = (x = c \<and> HasPrefix s sub)"

fun Contains :: "string \<Rightarrow> string \<Rightarrow> bool" where
  "Contains [] sub = (sub = [])"
| "Contains (x # s) sub = (HasPrefix (x # s) sub \<or> Contains s sub)"

text \<open>\<^verbatim>\<open>strings.Split(s, sep)\<close> for a separator of one character: the fields between
  the separators, always at least one field.\<close>

fun Split :: "string \<Rightarrow> char \<Rightarrow> string list" where
  "Split [] sep = [[]]"
| "Split (x # s) sep =
     (if x = sep then [] # Split s sep
      else (case Split s sep of [] \<Rightarrow> [[x]] | w # ws \<Rightarrow> (x # w) # ws))"

subsection \<open>Pair\<close>

type_synonym Pair = string

definition Valid :: "Pair \<Rightarrow> bool" where
  "Valid p = Contains p ''-''"

definition Base :: "Pair \<Rightarrow> string" where
  "Base p = (if \<not> Valid p then '''' else Split p CHR ''-'' ! 0)"

definition Quote :: "Pair \<Rightarrow> string" where
  "Quote p = (if \<not> Valid p then '''' else Split p CHR ''-'' ! 1)"

text \<open>The form the specification asks of a valid pair, in its own words: a base symbol and
  a quote symbol joined by exactly one separator.\<close>

definition spec_two_part_form :: "string \<Rightarrow> bool" where
  "spec_two_part_form p =
     (case Split p CHR ''-'' of [b, q] \<Rightarrow> b \<noteq> [] \<and> q \<noteq> [] | _ \<Rightarrow> False)"

subsection \<open>The loader and its cursor\<close>

record CCDepthLoader =
  market :: string
  records :: "Pair \<rightharpoonup> string list"
  index :: int

definition NewCCDepthLoader :: "string \<Rightarrow> CCDepthLoader" where
  "NewCCDepthLoader m = \<lparr>market = m, records = Map.empty, index = 0\<rparr>"

text \<open>Go's \<^verbatim>\<open>int\<close> is 64 bits wide and wraps around silently.\<close>

definition wrap64 :: "int \<Rightarrow> int" where
  "wrap64 x = (x + 2 ^ 63) mod 2 ^ 64 - 2 ^ 63"

definition Tick :: "CCDepthLoader \<Rightarrow> CCDepthLoader" where
  "Tick l = l\<lparr>index := wrap64 (index l + 4)\<rparr>"

text \<open>\<^verbatim>\<open>l.records[pair]\<close>: a missing key reads as the nil slice, of length 0.\<close>

definition series :: "CCDepthLoader \<Rightarrow> Pair \<Rightarrow> string list" where
  "series l p = (case records l p of None \<Rightarrow> [] | Some xs \<Rightarrow> xs)"

record 'f Record =
  pair :: Pair
  BidPrice :: 'f
  BidSize :: 'f
  AskPrice :: 'f
  AskSize :: 'f

text \<open>\<^verbatim>\<open>strconv.ParseFloat(s, 64)\<close> is a parameter \<open>pf\<close> of the model: \<open>None\<close> where it
  reports an error.\<close>

definition mustParseFloat :: "(string \<Rightarrow> 'f option) \<Rightarrow> string \<Rightarrow> error + 'f" where
  "mustParseFloat pf s = (case pf s of None \<Rightarrow> Inl ParseFloatError | Some f \<Rightarrow> Inr f)"

text \<open>The slice expression \<^verbatim>\<open>l.records[pair][l.index : l.index+4]\<close> panics in the Go
  runtime when a bound is negative or beyond the capacity of the slice. (Where a
  slice has spare capacity the four strings read beyond its length are empty, and
  \<^verbatim>\<open>mustParseFloat("")\<close> panics: the read fails either way.)\<close>

definition GetDepth :: "(string \<Rightarrow> 'f option) \<Rightarrow> CCDepthLoader \<Rightarrow> Pair \<Rightarrow> error + 'f Record" where
  "GetDepth pf l p =
     (let xs = series l p in
      if index l \<ge> int (length xs) then Inl IndexOutOfRange
      else if index l < 0 \<or> int (length xs) < index l + 4 then Inl SliceBounds
      else
        let record = take 4 (drop (nat (index l)) xs) in
        (case mustParseFloat pf (record ! 0) of Inl e \<Rightarrow> Inl e | Inr bp \<Rightarrow>
        (case mustParseFloat pf (record ! 1) of Inl e \<Rightarrow> Inl e | Inr bs \<Rightarrow>
        (case mustParseFloat pf (record ! 2) of Inl e \<Rightarrow> Inl e | Inr ap \<Rightarrow>
        (case mustParseFloat pf (record ! 3) of Inl e \<Rightarrow> Inl e | Inr as \<Rightarrow>
          Inr \<lparr>pair = p, BidPrice = bp, BidSize = bs, AskPrice = ap, AskSize = as\<rparr>)))))"

subsection \<open>Time\<close>

text \<open>A \<^verbatim>\<open>time.Time\<close> is its Unix time in whole seconds, read in UTC (the loader only ever
  builds whole-second times, and every zone offset in use is a whole number of minutes, so
  \<^verbatim>\<open>t.Second()\<close> is the Unix time modulo 60). The zero \<^verbatim>\<open>time.Time\<close>, January 1 of year 1,
  is \<open>zeroTime\<close>. Timestamps are taken to lie where Go's time arithmetic does not overflow.\<close>

definition zeroTime :: int where
  "zeroTime = - 62135596800"

definition IsZero :: "int \<Rightarrow> bool" where
  "IsZero t = (t = zeroTime)"

definition Second :: "int \<Rightarrow> int" where
  "Second t = t mod 60"

text \<open>\<^verbatim>\<open>t.Format("2006-01-02")\<close> depends on the calendar day only, and two days have
  different texts: the day number stands for the formatted date.\<close>

definition dayNumber :: "int \<Rightarrow> int" where
  "dayNumber t = t div 86400"

text \<open>\<^verbatim>\<open>int(endDate.Sub(startDate).Minutes())\<close>: \<^verbatim>\<open>Sub\<close> saturates at the largest and smallest
  \<^verbatim>\<open>Duration\<close> (an int64 of nanoseconds) and the conversion to \<^verbatim>\<open>int\<close> truncates toward zero.\<close>

definition Sub :: "int \<Rightarrow> int \<Rightarrow> int" where
  "Sub t u = max (- (2 ^ 63)) (min (2 ^ 63 - 1) ((t - u) * 1000000000))"

definition truncMinutes :: "int \<Rightarrow> int" where
  "truncMinutes d = (if 0 \<le> d then d div 60000000000 else - ((- d) div 60000000000))"

text \<open>\<^verbatim>\<open>strconv.ParseInt(s, 10, 64)\<close> with its error dropped (\<^verbatim>\<open>s, _ := ...\<close>): 0 on a syntax
  error, the nearest int64 on a range error.\<close>

definition isDigit :: "char \<Rightarrow> bool" where
  "isDigit c = (c \<in> set ''0123456789'')"

definition digitsValue :: "string \<Rightarrow> int" where
  "digitsValue ds = foldl (\<lambda>n c. 10 * n + (of_char c - 48)) 0 ds"

definition ParseInt :: "string \<Rightarrow> int" where
  "ParseInt s =
     (case s of [] \<Rightarrow> 0
      | c # cs \<Rightarrow>
          let neg = (c = CHR ''-'');
              ds = (if c = CHR ''+'' \<or> c = CHR ''-'' then cs else s)
          in if ds = [] \<or> \<not> list_all isDigit ds then 0
             else
               let un = min (digitsValue ds) (2 ^ 64 - 1)
               in if \<not> neg \<and> un \<ge> 2 ^ 63 then 2 ^ 63 - 1
                  else if neg \<and> un > 2 ^ 63 then - (2 ^ 63)
                  else if neg then - un else un)"

subsection \<open>The day fetcher\<close>

text \<open>The remote service (getURL, the download, gzip and the CSV reader with
  \<^verbatim>\<open>FieldsPerRecord = -1\<close>) is a parameter: for a market, a pair and a calendar day it
  gives the rows of the day's CSV, each row the list of its fields, or \<open>None\<close> when any of
  these steps panics.\<close>

type_synonym remote = "string \<Rightarrow> Pair \<Rightarrow> int \<Rightarrow> string list list option"

record dayState =
  prevRecord :: "string list"
  prevRecordTime :: int
  dayRecords :: "string list list"

definition initDayState :: dayState where
  "initDayState = \<lparr>prevRecord = [], prevRecordTime = zeroTime, dayRecords = []\<rparr>"

text \<open>The inner loop
  \<^verbatim>\<open>for prevRecordTime.Add(time.Minute).Before(timeSeconds) { ... }\<close>.\<close>

function fillGap :: "int \<Rightarrow> string list \<Rightarrow> int \<Rightarrow> string list list \<Rightarrow> int \<times> string list list" where
  "fillGap timeSeconds prev prevTime recs =
     (if prevTime + 60 < timeSeconds
      then fillGap timeSeconds prev (prevTime + 60) (recs @ [prev])
      else (prevTime, recs))"
  by pat_completeness auto
termination
  by (relation "measure (\<lambda>(t, p, pt, rs). nat (t - pt))") auto

declare fillGap.simps [simp del]

definition gapStep :: "int \<Rightarrow> dayState \<Rightarrow> dayState" where
  "gapStep timeSeconds st =
     (if \<not> IsZero (prevRecordTime st) \<and> timeSeconds - prevRecordTime st > 1
      then (case fillGap timeSeconds (prevRecord st) (prevRecordTime st) (dayRecords st) of
              (t, rs) \<Rightarrow> st\<lparr>prevRecordTime := t, dayRecords := rs\<rparr>)
      else st)"

text \<open>One pass of the row loop. Indexing a row or a split field out of range is a
  runtime panic.\<close>

definition processRow :: "string list \<Rightarrow> dayState \<Rightarrow> error + dayState" where
  "processRow record st =
     (case record of [] \<Rightarrow> Inl SliceBounds
      | f0 # _ \<Rightarrow>
          if f0 = ''time_seconds'' then Inr st
          else
            let timeSeconds = ParseInt f0;
                st1 = gapStep timeSeconds st
            in if Second timeSeconds = 0 then
                 (if length record < 3 then Inl SliceBounds
                  else
                    let bidPriceAndSize = Split (record ! 1) CHR ''_'';
                        askPriceAndSize = Split (record ! 2) CHR ''_''
                    in if length bidPriceAndSize < 2 \<or> length askPriceAndSize < 2
                       then Inl SliceBounds
                       else
                         let r = [bidPriceAndSize ! 0, bidPriceAndSize ! 1,
                                  askPriceAndSize ! 0, askPriceAndSize ! 1]
                         in Inr (st1\<lparr>dayRecords := dayRecords st1 @ [r],
                                     prevRecord := r, prevRecordTime := timeSeconds\<rparr>))
               else Inr st1)"

fun processRows :: "string list list \<Rightarrow> dayState \<Rightarrow> error + dayState" where
  "processRows [] st = Inr st"
| "processRows (record # rows) st =
     (case processRow record st of Inl e \<Rightarrow> Inl e | Inr st' \<Rightarrow> processRows rows st')"

definition finishDay :: "string list list \<Rightarrow> error + string list" where
  "finishDay recs =
     (if length recs > 0 then
        (let fullRec = concat recs;
             numbersPerRecord = 4;
             minutesInADay = 1440
         in if length fullRec \<noteq> numbersPerRecord * minutesInADay
            then Inl (WrongNumberOfRecords (length fullRec))
            else Inr fullRec)
      else Inr [])"

definition downloadDay :: "remote \<Rightarrow> string \<Rightarrow> Pair \<Rightarrow> int \<Rightarrow> error + string list" where
  "downloadDay rem mkt p date =
     (case rem mkt p (dayNumber date) of None \<Rightarrow> Inl RemoteFailure
      | Some rows \<Rightarrow>
          (case processRows rows initDayState of Inl e \<Rightarrow> Inl e
           | Inr st \<Rightarrow> finishDay (dayRecords st)))"

subsection \<open>The cache file\<close>

text \<open>A file is the list of its lines and a line the list of its comma-separated
  fields, as \<^verbatim>\<open>strings.Split(line, ",")\<close> and the CSV reader give them: pair names and
  tokens are taken to hold no comma, quote, line break or leading blank, so that a line
  written with \<^verbatim>\<open>WriteString\<close> is read back as the fields it was built from. An empty
  line has one field, the empty string.\<close>

type_synonym csvFile = "string list list"

definition defaultPairs :: "Pair list" where
  "defaultPairs =
     [''ADA-BUSD'', ''BCH-BUSD'', ''BNB-BUSD'', ''BTC-BUSD'', ''DOGE-BUSD'', ''DOT-BUSD'',
      ''EOS-BUSD'', ''ETH-BUSD'', ''LTC-BUSD'', ''SOL-BUSD'', ''UNI-BUSD'', ''XRP-BUSD'']"

text \<open>\<^verbatim>\<open>fmt.Sprintf("#,%s\n", slices.Join(defaultPairs, ","))\<close>\<close>

definition headerLine :: "string list" where
  "headerLine = ''#'' # defaultPairs"

definition readPairNamesFromHeader :: "csvFile \<Rightarrow> Pair list" where
  "readPairNamesFromHeader file =
     (case file of (h # pairNames) # _ \<Rightarrow> if h = ''#'' then pairNames else []
      | _ \<Rightarrow> [])"

text \<open>What \<^verbatim>\<open>csvParser.Read()\<close> never returns: the reader skips empty lines and, with
  \<^verbatim>\<open>Comment = '#'\<close>, every line that starts with that character.\<close>

definition skippedLine :: "string list \<Rightarrow> bool" where
  "skippedLine line =
     (case line of [] \<Rightarrow> True
      | [] # fs \<Rightarrow> fs = []
      | (c # _) # _ \<Rightarrow> c = CHR ''#'')"

text \<open>The state of the loop of \<^verbatim>\<open>readDepthRecordsFromFile\<close>. \<open>fieldsPerRecord\<close> is the
  reader's field of that name: set to 0 by the code, it takes the field count of the first
  record read, and every later record with another count makes \<^verbatim>\<open>Read\<close> return
  \<^verbatim>\<open>ErrFieldCount\<close>. \<open>foundPairs\<close> holds the keys of the Go map of that name; \<open>stopped\<close>
  says that the loop has executed its \<^verbatim>\<open>break\<close>.\<close>

record readState =
  fieldsPerRecord :: nat
  historyLength :: nat
  foundPairs :: "Pair list"
  fileRecords :: "Pair \<rightharpoonup> string list"
  stopped :: bool

definition readRecord :: "Pair list \<Rightarrow> string list \<Rightarrow> readState \<Rightarrow> error + readState" where
  "readRecord pairs record st =
     (if fieldsPerRecord st > 0 \<and> length record \<noteq> fieldsPerRecord st then Inl CsvFieldCount
      else
        let st1 = st\<lparr>fieldsPerRecord := length record\<rparr>;
            p = hd record
        in if length pairs > 0 \<and> p \<notin> set pairs then Inr st1
           else
             let depths = tl record;
                 hl = max (historyLength st1) (length depths div 4)
             in if length depths > 0 \<and> length depths div 4 \<noteq> hl then Inl (Corrupted p)
                else
                  let st2 = st1\<lparr>historyLength := hl,
                                 fileRecords := (fileRecords st1)(p \<mapsto> depths)\<rparr>
                  in if length pairs > 0 then
                       (let found = List.insert p (foundPairs st2)
                        in Inr (st2\<lparr>foundPairs := found,
                                    stopped := (length found = length pairs)\<rparr>))
                     else Inr st2)"

fun readLoop :: "Pair list \<Rightarrow> csvFile \<Rightarrow> readState \<Rightarrow> error + readState" where
  "readLoop pairs [] st = Inr st"
| "readLoop pairs (line # rest) st =
     (if skippedLine line then readLoop pairs rest st
      else (case readRecord pairs line st of Inl e \<Rightarrow> Inl e
            | Inr st' \<Rightarrow> if stopped st' then Inr st' else readLoop pairs rest st'))"

definition initReadState :: "(Pair \<rightharpoonup> string list) \<Rightarrow> readState" where
  "initReadState recs =
     \<lparr>fieldsPerRecord = 0, historyLength = 0, foundPairs = [], fileRecords = recs,
      stopped = False\<rparr>"

definition readDepthRecordsFromFile ::
  "csvFile \<Rightarrow> Pair list \<Rightarrow> (Pair \<rightharpoonup> string list) \<Rightarrow> error + (Pair \<rightharpoonup> string list) \<times> nat" where
  "readDepthRecordsFromFile file pairs recs =
     (case readLoop pairs file (initReadState recs) of Inl e \<Rightarrow> Inl e
      | Inr st \<Rightarrow> Inr (fileRecords st, historyLength st))"

subsection \<open>Load\<close>

text \<open>The file system maps the path, which \<^verbatim>\<open>Load\<close> builds from the two formatted dates
  alone, to the file there. Creating directories and opening and writing files are taken
  to succeed.\<close>

type_synonym fileSystem = "int \<times> int \<rightharpoonup> csvFile"

definition pathOf :: "int \<Rightarrow> int \<Rightarrow> int \<times> int" where
  "pathOf startDate endDate = (dayNumber startDate, dayNumber endDate)"

text \<open>\<^verbatim>\<open>for date := startDate; date.Before(endDate); date = date.AddDate(0, 0, 1)\<close>\<close>

function daysOf :: "int \<Rightarrow> int \<Rightarrow> int list" where
  "daysOf date endDate =
     (if date < endDate then date # daysOf (date + 86400) endDate else [])"
  by pat_completeness auto
termination
  by (relation "measure (\<lambda>(d, e). nat (e - d))") auto

declare daysOf.simps [simp del]

text \<open>\<^verbatim>\<open>slices.MapAsync(days, 30, ...)\<close>: the results in the order of the days; a panic in
  any worker ends the program.\<close>

fun mapDays :: "(int \<Rightarrow> error + string list) \<Rightarrow> int list \<Rightarrow> error + string list list" where
  "mapDays f [] = Inr []"
| "mapDays f (d # ds) =
     (case f d of Inl e \<Rightarrow> Inl e
      | Inr r \<Rightarrow> (case mapDays f ds of Inl e \<Rightarrow> Inl e | Inr rs \<Rightarrow> Inr (r # rs)))"

text \<open>The body of \<^verbatim>\<open>slices.Each(pairsToLoad, ...)\<close>, on the in-memory map and the file
  opened for appending.\<close>

definition loadPair ::
  "remote \<Rightarrow> string \<Rightarrow> int list \<Rightarrow> Pair \<Rightarrow> (Pair \<rightharpoonup> string list) \<times> csvFile
     \<Rightarrow> error + (Pair \<rightharpoonup> string list) \<times> csvFile" where
  "loadPair rem mkt days p st =
     (case mapDays (downloadDay rem mkt p) days of Inl e \<Rightarrow> Inl e
      | Inr recordsForEachDay \<Rightarrow>
          let fullRecord = concat recordsForEachDay
          in if length fullRecord = 0 then Inr st
             else Inr ((fst st)(p \<mapsto> fullRecord), snd st @ [p # fullRecord]))"

fun loadPairs ::
  "remote \<Rightarrow> string \<Rightarrow> int list \<Rightarrow> Pair list \<Rightarrow> (Pair \<rightharpoonup> string list) \<times> csvFile
     \<Rightarrow> error + (Pair \<rightharpoonup> string list) \<times> csvFile" where
  "loadPairs rem mkt days [] st = Inr st"
| "loadPairs rem mkt days (p # ps) st =
     (case loadPair rem mkt days p st of Inl e \<Rightarrow> Inl e
      | Inr st' \<Rightarrow> loadPairs rem mkt days ps st')"

text \<open>The branch of \<^verbatim>\<open>Load\<close> taken when \<^verbatim>\<open>os.Stat(path)\<close> succeeds: the in-memory map
  after the file has been read, and the pairs still to load.\<close>

definition loadExisting ::
  "csvFile \<Rightarrow> Pair list \<Rightarrow> int \<Rightarrow> (Pair \<rightharpoonup> string list)
     \<Rightarrow> error + (Pair \<rightharpoonup> string list) \<times> Pair list" where
  "loadExisting file pairs historyLen recs =
     (case readDepthRecordsFromFile file pairs recs of Inl e \<Rightarrow> Inl e
      | Inr (recs', fileHistoryLength) \<Rightarrow>
          if fileHistoryLength \<noteq> 0 \<and> \<bar>int fileHistoryLength - historyLen\<bar> \<ge> 1400
          then Inl RangeMismatch
          else
            let testPairs = pairs;
                pairsToLoad = (if length testPairs = 0 then readPairNamesFromHeader file
                               else testPairs)
            in Inr (recs', filter (\<lambda>s. recs' s = None) pairsToLoad))"

text \<open>\<^verbatim>\<open>Load\<close> returns the loader's own map; the model gives the loader and the file
  system after the call with it. A panic leaves no result.\<close>

definition Load ::
  "remote \<Rightarrow> CCDepthLoader \<Rightarrow> fileSystem \<Rightarrow> Pair list \<Rightarrow> int \<Rightarrow> int
     \<Rightarrow> error + CCDepthLoader \<times> fileSystem \<times> (Pair \<rightharpoonup> string list)" where
  "Load rem l fs pairs startDate endDate =
     (let path = pathOf startDate endDate;
          historyLen = truncMinutes (Sub endDate startDate);
          days = daysOf startDate endDate
      in case
           (case fs path of
              None \<Rightarrow>
                Inr (records l, if length pairs = 0 then defaultPairs else [], [headerLine])
            | Some file \<Rightarrow>
                (case loadExisting file pairs historyLen (records l) of Inl e \<Rightarrow> Inl e
                 | Inr (recs, pairsToLoad) \<Rightarrow> Inr (recs, pairsToLoad, file)))
         of Inl e \<Rightarrow> Inl e
         | Inr (recs, pairsToLoad, file) \<Rightarrow>
             (case loadPairs rem (market l) days pairsToLoad (recs, file) of Inl e \<Rightarrow> Inl e
              | Inr (recs', file') \<Rightarrow>
                  Inr (l\<lparr>records := recs'\<rparr>, fs(path \<mapsto> file'), recs')))"

subsection \<open>Notions used to state the properties\<close>

text \<open>The lines of a file that the CSV reader returns as records.\<close>

definition dataLines :: "csvFile \<Rightarrow> csvFile" where
  "dataLines file = filter (\<lambda>line. \<not> skippedLine line) file"

text \<open>All records of the file have as many fields as its first record.\<close>

definition uniformFields :: "csvFile \<Rightarrow> bool" where
  "uniformFields file =
     (case dataLines file of [] \<Rightarrow> True
      | first # others \<Rightarrow> list_all (\<lambda>line. length line = length first) others)"

subsection \<open>Sample data\<close>

text \<open>A loader that holds two minutes of one pair.\<close>

definition sampleLoader :: CCDepthLoader where
  "sampleLoader = (NewCCDepthLoader ''binance'')\<lparr>records :=
     [''BTC-BUSD'' \<mapsto> [''16000.5'', ''1.2'', ''16001'', ''0.7'',
                       ''16002.5'', ''0.9'', ''16003'', ''1.1'']]\<rparr>"

text \<open>One day of the remote service: a header row, the row of midnight and the row of
  the last second of 24 November 2022; and a service that has this day for one pair and,
  for every other pair and day, a CSV with the header row alone.\<close>

definition sampleRows :: "string list list" where
  "sampleRows =
     [[''time_seconds'', ''bid_price_size'', ''ask_price_size''],
      [''1669248000'', ''16000.5_1.2'', ''16001_0.7''],
      [''1669334399'', ''16010_2'', ''16011_3'']]"

definition sampleRemote :: remote where
  "sampleRemote mkt p day =
     (if p = ''BTC-BUSD'' \<and> day = 19320 then Some sampleRows
      else Some [[''time_seconds'', ''bid_price_size'', ''ask_price_size'']])"

definition sampleMinute :: "string list" where
  "sampleMinute = [''16000.5'', ''1.2'', ''16001'', ''0.7'']"

text \<open>What holds of the reading loop's state throughout: the history length seen so far is 0
  or the one that the reader's field count gives.\<close>

definition readInv :: "readState \<Rightarrow> bool" where
  "readInv st \<longleftrightarrow>
     historyLength st = 0 \<or>
     (0 < fieldsPerRecord st \<and> historyLength st = (fieldsPerRecord st - 1) div 4)"

text \<open>A cache file whose only line of data has five tokens.\<close>

definition sampleOddFile :: csvFile where
  "sampleOddFile =
     [headerLine, [''BTC-BUSD'', ''16000.5'', ''1.2'', ''16001'', ''0.7'', ''16002.5'']]"

text \<open>The series that \<open>loadPair\<close> builds for a pair: the days' results, concatenated.\<close>

definition fetchPair :: "remote \<Rightarrow> string \<Rightarrow> int list \<Rightarrow> Pair \<Rightarrow> error + string list" where
  "fetchPair rem mkt days p =
     (case mapDays (downloadDay rem mkt p) days of Inl e \<Rightarrow> Inl e
      | Inr recordsForEachDay \<Rightarrow> Inr (concat recordsForEachDay))"

text \<open>The full day that \<open>sampleRows\<close> yields, and a cache file that holds it.\<close>

definition sampleDay :: "string list" where
  "sampleDay = concat (replicate 1440 sampleMinute)"

definition sampleDayFile :: csvFile where
  "sampleDayFile = [headerLine, ''BTC-BUSD'' # sampleDay]"

text \<open>A day of a second pair, as an earlier call has loaded it: in a loader's map and in
  the cache file of the range.\<close>

definition sampleEthDay :: "string list" where
  "sampleEthDay = concat (replicate 1440 [''1200.5'', ''3'', ''1201'', ''2''])"

definition sampleEthFile :: csvFile where
  "sampleEthFile = [headerLine, ''ETH-BUSD'' # sampleEthDay]"

definition sampleEthLoader :: CCDepthLoader where
  "sampleEthLoader = (NewCCDepthLoader ''binance'')\<lparr>records := [''ETH-BUSD'' \<mapsto> sampleEthDay]\<rparr>"

text \<open>A remote service that has the sample day, 24 November 2022, for every pair.\<close>

definition sampleRemoteAll :: remote where
  "sampleRemoteAll mkt p day =
     (if day = 19320 then Some sampleRows
      else Some [[''time_seconds'', ''bid_price_size'', ''ask_price_size'']])"

section \<open>Properties\<close>

subsection \<open>Strings and pairs\<close>

lemma HasPrefix_single: "HasPrefix s [c] = (case s of [] \<Rightarrow> False | x # _ \<Rightarrow> x = c)"
  by (cases s) auto

lemma Contains_single: "Contains s [c] = (c \<in> set s)"
  by (induction s) (auto simp: HasPrefix_single)

lemma Split_nonempty: "Split s c \<noteq> []"
  by (induction s) (auto split: list.splits)

lemma length_Split: "length (Split s c) = Suc (length (filter (\<lambda>x. x = c) s))"
  by (induction s) (auto split: list.splits simp: Split_nonempty)

lemma Valid_iff_separator: "Valid p \<longleftrightarrow> CHR ''-'' \<in> set p"
  by (simp add: Valid_def Contains_single)

lemma Split_length_ge2: "2 \<le> length (Split p c) \<longleftrightarrow> c \<in> set p"
  by (auto simp: length_Split filter_empty_conv Suc_le_eq)

text \<open>
  Claim C9, as stated: \<open>Valid\<close> holds exactly for the strings of the two-part form, a base
  symbol and a quote symbol joined by exactly one separator. It does not: the string
  \<open>BTC-BUSD-X\<close>, with two separators, is valid.
\<close>

theorem Valid_not_two_part_counterexample:
  "Valid ''BTC-BUSD-X'' \<and> \<not> spec_two_part_form ''BTC-BUSD-X''"
  by (simp add: Valid_def spec_two_part_form_def)

text \<open>
  Claim C9, amended: \<open>Valid\<close> holds exactly for the strings that hold the separator at
  least once, that is, that split at the separator into two parts or more (empty parts
  included); so every string of the two-part form is valid, and so is every string with
  more separators.
\<close>

theorem Valid_iff_at_least_two_parts:
  "(Valid p \<longleftrightarrow> 2 \<le> length (Split p CHR ''-'')) \<and> (spec_two_part_form p \<longrightarrow> Valid p)"
proof -
  have a: "Valid p \<longleftrightarrow> 2 \<le> length (Split p CHR ''-'')"
    by (simp add: Valid_iff_separator Split_length_ge2)
  have "spec_two_part_form p \<Longrightarrow> length (Split p CHR ''-'') = 2"
    by (auto simp: spec_two_part_form_def split: list.splits)
  with a show ?thesis by simp
qed

theorem Valid_iff_at_least_two_parts_witness:
  "spec_two_part_form ''BTC-BUSD'' \<and> Valid ''BTC-BUSD'' \<and>
   length (Split ''BTC-BUSD'' CHR ''-'') = 2 \<and>
   Valid ''A-B-C'' \<and> length (Split ''A-B-C'' CHR ''-'') = 3 \<and> \<not> Valid ''BTCBUSD''"
  using Valid_iff_at_least_two_parts [of "''BTC-BUSD''"] Valid_iff_at_least_two_parts [of "''A-B-C''"]
    Valid_iff_at_least_two_parts [of "''BTCBUSD''"]
  by (simp add: spec_two_part_form_def)

subsection \<open>The cursor\<close>

lemma wrap64_id: "- (2 ^ 63) \<le> x \<Longrightarrow> x < 2 ^ 63 \<Longrightarrow> wrap64 x = x"
  by (simp add: wrap64_def)

lemma index_Tick: "index (Tick l) = wrap64 (index l + 4)"
  by (simp add: Tick_def)

lemma records_Tick: "records (Tick l) = records l"
  by (simp add: Tick_def)

lemma index_Ticks: "index l = 0 \<Longrightarrow> k < 2 ^ 61 \<Longrightarrow> index ((Tick ^^ k) l) = 4 * int k"
proof (induction k)
  case 0
  then show ?case by simp
next
  case (Suc k)
  then have "index ((Tick ^^ k) l) = 4 * int k" by simp
  moreover have "int (Suc k) < 2 ^ 61"
    using Suc.prems(2) by (metis of_nat_less_numeral_power_cancel_iff)
  ultimately show ?case by (simp add: index_Tick wrap64_id)
qed

lemma records_Ticks: "records ((Tick ^^ k) l) = records l"
  by (induction k) (simp_all add: records_Tick)

lemma series_Ticks: "series ((Tick ^^ k) l) p = series l p"
  by (simp add: series_def records_Ticks)

lemma GetDepth_beyond:
  "int (length (series l p)) \<le> index l \<Longrightarrow> GetDepth pf l p = Inl IndexOutOfRange"
  by (simp add: GetDepth_def)

lemma GetDepth_Inr:
  "GetDepth pf l p = Inr r \<longleftrightarrow>
     (0 \<le> index l \<and> index l + 4 \<le> int (length (series l p)) \<and>
      pf (series l p ! nat (index l)) = Some (BidPrice r) \<and>
      pf (series l p ! (nat (index l) + 1)) = Some (BidSize r) \<and>
      pf (series l p ! (nat (index l) + 2)) = Some (AskPrice r) \<and>
      pf (series l p ! (nat (index l) + 3)) = Some (AskSize r) \<and>
      pair r = p \<and> Record.more r = ())"
  by (cases r)
    (auto simp: GetDepth_def Let_def mustParseFloat_def split: option.splits sum.splits)

text \<open>
  Claim C5: starting from a loader whose index is 0 (as \<open>NewCCDepthLoader\<close> builds it;
  \<open>Load\<close> does not touch the index), after \<open>k\<close> calls of \<open>Tick\<close> the index is \<open>4k\<close>, and
  \<open>GetDepth\<close> returns a record exactly when the four tokens at the offsets \<open>4k\<close> to
  \<open>4k + 3\<close> of the pair's series exist and parse, its fields being their parsed values in
  this order; for every loader whose index is at or beyond the length of the pair's series,
  \<open>GetDepth\<close> fails. The index is a 64-bit \<^verbatim>\<open>int\<close>: \<open>k\<close> ranges over the numbers of calls
  below \<open>2^61\<close>, for which \<open>4k\<close> can be represented.
\<close>

theorem cursor_after_Ticks:
  assumes "index l = 0" and "k < 2 ^ 61"
  shows "index ((Tick ^^ k) l) = 4 * int k \<and>
    (\<forall>r. GetDepth pf ((Tick ^^ k) l) p = Inr r \<longleftrightarrow>
       4 * k + 4 \<le> length (series l p) \<and>
       pf (series l p ! (4 * k)) = Some (BidPrice r) \<and>
       pf (series l p ! (4 * k + 1)) = Some (BidSize r) \<and>
       pf (series l p ! (4 * k + 2)) = Some (AskPrice r) \<and>
       pf (series l p ! (4 * k + 3)) = Some (AskSize r) \<and>
       pair r = p \<and> Record.more r = ()) \<and>
    (\<forall>l' q. int (length (series l' q)) \<le> index l' \<longrightarrow> (\<exists>e. GetDepth pf l' q = Inl e))"
proof -
  have i: "index ((Tick ^^ k) l) = 4 * int k"
    using assms by (rule index_Ticks)
  have n: "nat (4 * int k) = 4 * k" by simp
  have le: "4 * int k + 4 \<le> int (length (series l p)) \<longleftrightarrow> 4 * k + 4 \<le> length (series l p)"
    by linarith
  have "\<forall>r. GetDepth pf ((Tick ^^ k) l) p = Inr r \<longleftrightarrow>
       4 * k + 4 \<le> length (series l p) \<and>
       pf (series l p ! (4 * k)) = Some (BidPrice r) \<and>
       pf (series l p ! (4 * k + 1)) = Some (BidSize r) \<and>
       pf (series l p ! (4 * k + 2)) = Some (AskPrice r) \<and>
       pf (series l p ! (4 * k + 3)) = Some (AskSize r) \<and>
       pair r = p \<and> Record.more r = ()"
    unfolding GetDepth_Inr series_Ticks i n le by simp
  moreover have "\<forall>l' q. int (length (series l' q)) \<le> index l' \<longrightarrow> (\<exists>e. GetDepth pf l' q = Inl e)"
    by (simp add: GetDepth_beyond)
  ultimately show ?thesis using i by blast
qed

theorem cursor_after_Ticks_witness:
  "index sampleLoader = 0 \<and> (1::nat) < 2 ^ 61 \<and>
   index ((Tick ^^ 1) sampleLoader) = 4 \<and>
   GetDepth Some ((Tick ^^ 1) sampleLoader) ''BTC-BUSD'' =
     Inr \<lparr>pair = ''BTC-BUSD'', BidPrice = ''16002.5'', BidSize = ''0.9'',
          AskPrice = ''16003'', AskSize = ''1.1''\<rparr> \<and>
   (\<exists>e. GetDepth Some ((Tick ^^ 2) sampleLoader) ''BTC-BUSD'' = Inl e)"
proof -
  have a: "index sampleLoader = 0"
    by (simp add: sampleLoader_def NewCCDepthLoader_def)
  have s: "series sampleLoader ''BTC-BUSD'' =
      [''16000.5'', ''1.2'', ''16001'', ''0.7'', ''16002.5'', ''0.9'', ''16003'', ''1.1'']"
    by (simp add: sampleLoader_def series_def)
  have b: "int (length (series ((Tick ^^ 2) sampleLoader) ''BTC-BUSD''))
      \<le> index ((Tick ^^ 2) sampleLoader)"
    by (simp add: series_Ticks s index_Ticks [OF a])
  from cursor_after_Ticks [OF a, of 1 Some "''BTC-BUSD''"] a b
  show ?thesis by (simp add: s)
qed

text \<open>
  Claim C10: for a pair that has no entry in the loader's map, \<open>GetDepth\<close> fails whatever the
  index is, and never returns a record: with the explicit panic when the index is not
  negative, in the slice expression otherwise.
\<close>

theorem GetDepth_absent_pair_fails:
  assumes "records l p = None"
  shows "(\<exists>e. GetDepth pf l p = Inl e) \<and> (\<forall>r. GetDepth pf l p \<noteq> Inr r) \<and>
         (0 \<le> index l \<longrightarrow> GetDepth pf l p = Inl IndexOutOfRange)"
  using assms by (auto simp: GetDepth_def series_def Let_def)

theorem GetDepth_absent_pair_fails_witness:
  "records (NewCCDepthLoader ''binance'') ''ETH-BUSD'' = None \<and>
   GetDepth Some (NewCCDepthLoader ''binance'') ''ETH-BUSD'' = Inl IndexOutOfRange \<and>
   GetDepth Some ((Tick ^^ 3) (NewCCDepthLoader ''binance'')) ''ETH-BUSD'' = Inl IndexOutOfRange"
proof -
  have a: "records (NewCCDepthLoader ''binance'') ''ETH-BUSD'' = None"
    by (simp add: NewCCDepthLoader_def)
  have b: "records ((Tick ^^ 3) (NewCCDepthLoader ''binance'')) ''ETH-BUSD'' = None"
    by (simp add: records_Ticks NewCCDepthLoader_def)
  have c: "0 \<le> index (NewCCDepthLoader ''binance'')"
    by (simp add: NewCCDepthLoader_def)
  have d: "0 \<le> index ((Tick ^^ 3) (NewCCDepthLoader ''binance''))"
    by (simp add: index_Ticks NewCCDepthLoader_def)
  from GetDepth_absent_pair_fails [OF a, of Some] GetDepth_absent_pair_fails [OF b, of Some] a c d
  show ?thesis by blast
qed

subsection \<open>The day fetcher\<close>

lemma fillGap_eq:
  "fillGap t prev pt recs = (pt + 60 * int (nat ((t - pt - 1) div 60)), recs @ replicate (nat ((t - pt - 1) div 60)) prev)"
proof (induction t prev pt recs rule: fillGap.induct)
  case (1 t prev pt recs)
  show ?case
  proof (cases "pt + 60 < t")
    case True
    then have d: "(t - pt - 1) div 60 = (t - (pt + 60) - 1) div 60 + 1" by linarith
    have n: "0 \<le> (t - (pt + 60) - 1) div 60" using True by simp
    have s: "nat ((t - pt - 1) div 60) = Suc (nat ((t - (pt + 60) - 1) div 60))"
      using d n by linarith
    show ?thesis
      using "1.IH"[OF True] True
      by (subst fillGap.simps) (simp add: s replicate_app_Cons_same)
  next
    case False
    then have "(t - pt - 1) div 60 \<le> 0" by linarith
    then show ?thesis using False by (subst fillGap.simps) simp
  qed
qed


lemma ParseInt_sample_midnight: "ParseInt ''1669248000'' = 1669248000"
  by (simp add: ParseInt_def isDigit_def digitsValue_def)
lemma ParseInt_sample_last_second: "ParseInt ''1669334399'' = 1669334399"
  by (simp add: ParseInt_def isDigit_def digitsValue_def)

lemma gapStep_eq:
  "\<not> IsZero (prevRecordTime st) \<Longrightarrow> 1 < t - prevRecordTime st \<Longrightarrow>
   gapStep t st = st\<lparr>prevRecordTime := prevRecordTime st + 60 * int (nat ((t - prevRecordTime st - 1) div 60)),
                    dayRecords := dayRecords st @ replicate (nat ((t - prevRecordTime st - 1) div 60)) (prevRecord st)\<rparr>"
  by (simp add: gapStep_def fillGap_eq)

lemma gapStep_id:
  "IsZero (prevRecordTime st) \<or> t - prevRecordTime st \<le> 1 \<Longrightarrow> gapStep t st = st"
  by (auto simp: gapStep_def)

lemma Split_sample_bid: "Split ''16000.5_1.2'' CHR ''_'' = [''16000.5'', ''1.2'']" by simp
lemma Split_sample_ask: "Split ''16001_0.7'' CHR ''_'' = [''16001'', ''0.7'']" by simp

lemma sampleRows_processed:
  "processRows sampleRows initDayState =
     Inr \<lparr>prevRecord = sampleMinute, prevRecordTime = 1669334340,
          dayRecords = replicate 1440 sampleMinute\<rparr>"
proof -
  have r1: "processRow [''time_seconds'', ''bid_price_size'', ''ask_price_size''] initDayState = Inr initDayState"
    by (simp add: processRow_def)
  have r2: "processRow [''1669248000'', ''16000.5_1.2'', ''16001_0.7''] initDayState =
      Inr \<lparr>prevRecord = sampleMinute, prevRecordTime = 1669248000, dayRecords = [sampleMinute]\<rparr>"
    by (simp add: Let_def processRow_def ParseInt_sample_midnight gapStep_id IsZero_def initDayState_def Second_def Split_sample_bid Split_sample_ask sampleMinute_def del: Split.simps)
  have n: "nat ((1669334399 - 1669248000 - 1) div 60) = 1439" by simp
  have g: "gapStep 1669334399
       \<lparr>prevRecord = sampleMinute, prevRecordTime = 1669248000, dayRecords = [sampleMinute]\<rparr> =
       \<lparr>prevRecord = sampleMinute, prevRecordTime = 1669334340,
          dayRecords = [sampleMinute] @ replicate 1439 sampleMinute\<rparr>"
    by (subst gapStep_eq) (simp_all add: IsZero_def zeroTime_def)
  have "replicate (Suc 1439) sampleMinute = sampleMinute # replicate 1439 sampleMinute"
    by (rule replicate_Suc)
  then have e: "[sampleMinute] @ replicate 1439 sampleMinute = replicate 1440 sampleMinute"
    by simp
  have r3: "processRow [''1669334399'', ''16010_2'', ''16011_3'']
       \<lparr>prevRecord = sampleMinute, prevRecordTime = 1669248000, dayRecords = [sampleMinute]\<rparr> =
      Inr \<lparr>prevRecord = sampleMinute, prevRecordTime = 1669334340,
          dayRecords = replicate 1440 sampleMinute\<rparr>"
    unfolding e [symmetric]
    by (simp add: Let_def processRow_def ParseInt_sample_last_second g Second_def del: Split.simps)
  show ?thesis
    by (simp add: sampleRows_def r1 r2 r3)
qed

lemma gapStep_cases:
  "gapStep t st = st \<or>
   (\<not> IsZero (prevRecordTime st) \<and> 1 < t - prevRecordTime st \<and>
    gapStep t st = st\<lparr>prevRecordTime := prevRecordTime st + 60 * int (nat ((t - prevRecordTime st - 1) div 60)),
                    dayRecords := dayRecords st @ replicate (nat ((t - prevRecordTime st - 1) div 60)) (prevRecord st)\<rparr>)"
  using gapStep_eq [of st t] gapStep_id [of st t] by fastforce

lemma zeroTime_mod: "zeroTime mod 60 = 0"
  by (simp add: zeroTime_def)

lemma gapStep_inv:
  assumes "prevRecordTime st mod 60 = 0"
    and "\<forall>r \<in> set (dayRecords st). length r = 4"
    and "\<not> IsZero (prevRecordTime st) \<longrightarrow> dayRecords st \<noteq> [] \<and> last (dayRecords st) = prevRecord st"
  shows "prevRecordTime (gapStep t st) mod 60 = 0 \<and>
     (\<forall>r \<in> set (dayRecords (gapStep t st)). length r = 4) \<and>
     (\<not> IsZero (prevRecordTime (gapStep t st)) \<longrightarrow>
        dayRecords (gapStep t st) \<noteq> [] \<and> last (dayRecords (gapStep t st)) = prevRecord (gapStep t st))"
proof -
  consider (same) "gapStep t st = st"
    | (fill) n where "\<not> IsZero (prevRecordTime st)"
        "gapStep t st = st\<lparr>prevRecordTime := prevRecordTime st + 60 * int n,
                    dayRecords := dayRecords st @ replicate n (prevRecord st)\<rparr>"
    using gapStep_cases [of t st] by blast
  then show ?thesis
  proof cases
    case same
    then show ?thesis using assms by simp
  next
    case (fill n)
    from fill(1) assms(3) have ne: "dayRecords st \<noteq> []" and l: "last (dayRecords st) = prevRecord st"
      by simp_all
    then have "prevRecord st \<in> set (dayRecords st)" using last_in_set by metis
    then have "length (prevRecord st) = 4" using assms(2) by simp
    moreover have "last (dayRecords st @ replicate n (prevRecord st)) = prevRecord st"
      using ne l by (cases n) (simp_all add: last_replicate)
    ultimately show ?thesis using fill(2) assms(1,2) ne by auto
  qed
qed

lemma processRow_inv:
  assumes "processRow row st = Inr st'"
    and "prevRecordTime st mod 60 = 0"
    and "\<forall>r \<in> set (dayRecords st). length r = 4"
    and "\<not> IsZero (prevRecordTime st) \<longrightarrow> dayRecords st \<noteq> [] \<and> last (dayRecords st) = prevRecord st"
  shows "prevRecordTime st' mod 60 = 0 \<and>
     (\<forall>r \<in> set (dayRecords st'). length r = 4) \<and>
     (\<not> IsZero (prevRecordTime st') \<longrightarrow> dayRecords st' \<noteq> [] \<and> last (dayRecords st') = prevRecord st')"
proof (cases row)
  case Nil
  then show ?thesis using assms(1) by (simp add: processRow_def)
next
  case (Cons f0 fs)
  show ?thesis
  proof (cases "f0 = ''time_seconds''")
    case True
    then have "st' = st" using assms(1) Cons by (simp add: processRow_def)
    then show ?thesis using assms by simp
  next
    case False
    note g = gapStep_inv [OF assms(2,3,4), of "ParseInt f0"]
    show ?thesis
    proof (cases "Second (ParseInt f0) = 0")
      case s: False
      then have "st' = gapStep (ParseInt f0) st"
        using assms(1) Cons False by (simp add: processRow_def Let_def)
      then show ?thesis using g by simp
    next
      case s: True
      define r where "r = [Split ((f0 # fs) ! 1) CHR ''_'' ! 0, Split ((f0 # fs) ! 1) CHR ''_'' ! 1,
                           Split ((f0 # fs) ! 2) CHR ''_'' ! 0, Split ((f0 # fs) ! 2) CHR ''_'' ! 1]"
      have r: "length r = 4" by (simp add: r_def)
      have st': "st' = (gapStep (ParseInt f0) st)\<lparr>dayRecords := dayRecords (gapStep (ParseInt f0) st) @ [r],
                                     prevRecord := r, prevRecordTime := ParseInt f0\<rparr>"
        using assms(1) Cons False s
        by (simp add: processRow_def Let_def r_def split: if_splits)
      show ?thesis using g r s by (simp add: st' Second_def)
    qed
  qed
qed

lemma processRows_inv:
  assumes "processRows rows st = Inr st'"
    and "prevRecordTime st mod 60 = 0"
    and "\<forall>r \<in> set (dayRecords st). length r = 4"
    and "\<not> IsZero (prevRecordTime st) \<longrightarrow> dayRecords st \<noteq> [] \<and> last (dayRecords st) = prevRecord st"
  shows "prevRecordTime st' mod 60 = 0 \<and>
     (\<forall>r \<in> set (dayRecords st'). length r = 4) \<and>
     (\<not> IsZero (prevRecordTime st') \<longrightarrow> dayRecords st' \<noteq> [] \<and> last (dayRecords st') = prevRecord st')"
  using assms
proof (induction rows arbitrary: st)
  case Nil
  then show ?case by simp
next
  case (Cons row rows)
  from Cons.prems(1) obtain st1 where 1: "processRow row st = Inr st1" and 2: "processRows rows st1 = Inr st'"
    by (auto split: sum.splits)
  have a: "prevRecordTime st1 mod 60 = 0"
    and b: "\<forall>r \<in> set (dayRecords st1). length r = 4"
    and c: "\<not> IsZero (prevRecordTime st1) \<longrightarrow> dayRecords st1 \<noteq> [] \<and> last (dayRecords st1) = prevRecord st1"
    using processRow_inv [OF 1 Cons.prems(2,3,4)] by blast+
  show ?case by (rule Cons.IH [OF 2 a b c])
qed

lemma reachable_inv:
  assumes "processRows rows initDayState = Inr st"
  shows "prevRecordTime st mod 60 = 0 \<and>
     (\<forall>r \<in> set (dayRecords st). length r = 4) \<and>
     (\<not> IsZero (prevRecordTime st) \<longrightarrow> dayRecords st \<noteq> [] \<and> last (dayRecords st) = prevRecord st)"
  by (rule processRows_inv [OF assms]) (simp_all add: initDayState_def zeroTime_mod IsZero_def)

lemma length_concat_fours:
  "\<forall>r \<in> set recs. length r = 4 \<Longrightarrow> length (concat recs) = 4 * length recs"
  by (induction recs) simp_all

lemma finishDay_cases:
  "finishDay recs =
     (if recs = [] then Inr []
      else if length (concat recs) = 4 * 1440 then Inr (concat recs)
      else Inl (WrongNumberOfRecords (length (concat recs))))"
  by (simp add: finishDay_def Let_def)

lemma downloadDay_Some:
  "rem mkt p (dayNumber date) = Some rows \<Longrightarrow> processRows rows initDayState = Inr st \<Longrightarrow>
   downloadDay rem mkt p date = finishDay (dayRecords st)"
  by (simp add: downloadDay_def)

text \<open>
  Claim C3: whatever the remote service gives for the day, \<open>downloadDay\<close> returns either the
  empty series or a series of exactly 4 \<times> 1440 = 5760 tokens, and nothing else. Every
  minute record has 4 tokens; with no record the result is empty, with exactly 1440 records
  it is their concatenation, and any other number of records is the panic
  \<^verbatim>\<open>wrong number of records\<close>.
\<close>

theorem downloadDay_empty_or_full_day:
  "(\<forall>S. downloadDay rem mkt p date = Inr S \<longrightarrow> S = [] \<or> length S = 4 * 1440) \<and>
   (\<forall>rows st. rem mkt p (dayNumber date) = Some rows \<and> processRows rows initDayState = Inr st \<longrightarrow>
      length (concat (dayRecords st)) = 4 * length (dayRecords st) \<and>
      (dayRecords st = [] \<longrightarrow> downloadDay rem mkt p date = Inr []) \<and>
      (length (dayRecords st) = 1440 \<longrightarrow>
         downloadDay rem mkt p date = Inr (concat (dayRecords st))) \<and>
      (dayRecords st \<noteq> [] \<and> length (dayRecords st) \<noteq> 1440 \<longrightarrow>
         downloadDay rem mkt p date = Inl (WrongNumberOfRecords (4 * length (dayRecords st)))))"
proof -
  have a: "\<forall>S. downloadDay rem mkt p date = Inr S \<longrightarrow> S = [] \<or> length S = 4 * 1440"
    by (auto simp: downloadDay_def finishDay_cases split: option.splits sum.splits if_splits)
  have b: "length (concat (dayRecords st)) = 4 * length (dayRecords st)"
    if "processRows rows initDayState = Inr st" for rows st
    using reachable_inv [OF that] by (simp add: length_concat_fours)
  have c: "downloadDay rem mkt p date =
      (if dayRecords st = [] then Inr []
       else if length (dayRecords st) = 1440 then Inr (concat (dayRecords st))
       else Inl (WrongNumberOfRecords (4 * length (dayRecords st))))"
    if "rem mkt p (dayNumber date) = Some rows" "processRows rows initDayState = Inr st" for rows st
    using downloadDay_Some [of rem mkt p date rows st, OF that] b [OF that(2)] by (simp add: finishDay_cases)
  show ?thesis using a b c by (auto simp del: concat_eq_Nil_conv)
qed

lemma length_concat_replicate: "length (concat (replicate n r)) = n * length r"
  by (induction n) simp_all

lemma downloadDay_sample:
  "downloadDay sampleRemote mkt ''BTC-BUSD'' 1669248000 = Inr (concat (replicate 1440 sampleMinute))"
  by (simp add: downloadDay_def sampleRemote_def dayNumber_def sampleRows_processed finishDay_cases
      length_concat_replicate sampleMinute_def)

lemma downloadDay_sample_empty:
  "p \<noteq> ''BTC-BUSD'' \<or> dayNumber date \<noteq> 19320 \<Longrightarrow> downloadDay sampleRemote mkt p date = Inr []"
  by (auto simp: downloadDay_def sampleRemote_def processRow_def initDayState_def finishDay_cases)

theorem downloadDay_empty_or_full_day_witness:
  "downloadDay sampleRemote ''binance'' ''BTC-BUSD'' 1669248000 = Inr (concat (replicate 1440 sampleMinute)) \<and>
   length (concat (replicate 1440 sampleMinute)) = 4 * 1440 \<and>
   downloadDay sampleRemote ''binance'' ''ETH-BUSD'' 1669248000 = Inr [] \<and>
   downloadDay (\<lambda>m p d. Some [[''1669248000'', ''16000.5_1.2'', ''16001_0.7'']]) ''binance'' ''BTC-BUSD'' 1669248000
     = Inl (WrongNumberOfRecords 4)"
proof -
  let ?rem = "\<lambda>m p d. Some [[''1669248000'', ''16000.5_1.2'', ''16001_0.7'']]"
  have a: "downloadDay sampleRemote ''binance'' ''BTC-BUSD'' 1669248000 = Inr (concat (replicate 1440 sampleMinute))"
    by (rule downloadDay_sample)
  have b: "downloadDay sampleRemote ''binance'' ''ETH-BUSD'' 1669248000 = Inr []"
    by (simp add: downloadDay_sample_empty)
  have r: "?rem ''binance'' ''BTC-BUSD'' (dayNumber 1669248000) = Some [[''1669248000'', ''16000.5_1.2'', ''16001_0.7'']]"
    by simp
  have p: "processRows [[''1669248000'', ''16000.5_1.2'', ''16001_0.7'']] initDayState =
      Inr \<lparr>prevRecord = sampleMinute, prevRecordTime = 1669248000, dayRecords = [sampleMinute]\<rparr>"
    by (simp add: Let_def processRow_def ParseInt_sample_midnight gapStep_id IsZero_def
        initDayState_def Second_def Split_sample_bid Split_sample_ask sampleMinute_def del: Split.simps)
  from downloadDay_empty_or_full_day [of sampleRemote "''binance''" "''BTC-BUSD''" 1669248000] a
  have c: "length (concat (replicate 1440 sampleMinute)) = 4 * 1440"
    by (simp add: sampleMinute_def)
  from downloadDay_empty_or_full_day [of ?rem "''binance''" "''BTC-BUSD''" 1669248000] r p
  have d: "downloadDay ?rem ''binance'' ''BTC-BUSD'' 1669248000 = Inl (WrongNumberOfRecords 4)"
    by fastforce
  show ?thesis using a b c d by simp
qed





subsection \<open>Reading the cache file\<close>

lemma skippedLine_Nil [simp]: "skippedLine []"
  by (simp add: skippedLine_def)

lemma readRecord_result:
  assumes "line \<noteq> []" and "readInv st"
  shows "readRecord pairs line st =
     (if 0 < fieldsPerRecord st \<and> length line \<noteq> fieldsPerRecord st then Inl CsvFieldCount
      else if pairs \<noteq> [] \<and> hd line \<notin> set pairs
      then Inr (st\<lparr>fieldsPerRecord := length line\<rparr>)
      else Inr (st\<lparr>fieldsPerRecord := length line,
                   historyLength := (length line - 1) div 4,
                   fileRecords := (fileRecords st)(hd line \<mapsto> tl line),
                   foundPairs := (if pairs \<noteq> [] then List.insert (hd line) (foundPairs st)
                                  else foundPairs st),
                   stopped := (if pairs \<noteq> []
                               then length (List.insert (hd line) (foundPairs st)) = length pairs
                               else stopped st)\<rparr>))"
proof -
  have m: "max (historyLength st) ((length line - 1) div 4) = (length line - 1) div 4"
    if "\<not> (0 < fieldsPerRecord st \<and> length line \<noteq> fieldsPerRecord st)"
    using that assms(2) by (auto simp: readInv_def)
  show ?thesis
    using m by (auto simp: readRecord_def Let_def)
qed

lemma readRecord_readInv:
  assumes "line \<noteq> []" and "readInv st" and "readRecord pairs line st = Inr st'"
  shows "readInv st' \<and> fieldsPerRecord st' = length line \<and>
         (fieldsPerRecord st = 0 \<or> fieldsPerRecord st = length line)"
  using assms(3) assms(1,2) unfolding readRecord_result [OF assms(1,2)]
  by (auto simp: readInv_def split: if_splits)

lemma readRecord_error:
  assumes "line \<noteq> []" and "readInv st" and "readRecord pairs line st = Inl e"
  shows "e = CsvFieldCount \<and> 0 < fieldsPerRecord st \<and> length line \<noteq> fieldsPerRecord st"
  using assms(3) unfolding readRecord_result [OF assms(1,2)]
  by (auto split: if_splits)

lemma readLoop_readInv:
  "readInv st \<Longrightarrow>
   (\<forall>e. readLoop pairs csv st = Inl e \<longrightarrow> e = CsvFieldCount) \<and>
   (\<forall>st'. readLoop pairs csv st = Inr st' \<longrightarrow> readInv st')"
proof (induction csv arbitrary: st)
  case Nil
  then show ?case by simp
next
  case (Cons line csv)
  show ?case
  proof (cases "skippedLine line")
    case True
    then show ?thesis using Cons by simp
  next
    case False
    then have ne: "line \<noteq> []" by auto
    show ?thesis
    proof (cases "readRecord pairs line st")
      case (Inl e)
      then show ?thesis using False readRecord_error [OF ne Cons.prems Inl] by simp
    next
      case (Inr st1)
      then have "readInv st1" using readRecord_readInv [OF ne Cons.prems] by simp
      then show ?thesis using False Inr Cons.IH [of st1] by simp
    qed
  qed
qed

lemma readLoop_uniform:
  assumes "readInv st"
    and "\<forall>line \<in> set (dataLines csv). length line = n"
    and "fieldsPerRecord st = 0 \<or> fieldsPerRecord st = n"
  shows "\<exists>st'. readLoop pairs csv st = Inr st'"
  using assms
proof (induction csv arbitrary: st)
  case Nil
  then show ?case by simp
next
  case (Cons line csv)
  have rest: "\<forall>l \<in> set (dataLines csv). length l = n"
    using Cons.prems(2) by (simp add: dataLines_def)
  show ?case
  proof (cases "skippedLine line")
    case True
    then show ?thesis using Cons.IH [OF Cons.prems(1) rest Cons.prems(3)] by simp
  next
    case False
    then have ne: "line \<noteq> []" by auto
    from False Cons.prems(2) have len: "length line = n" by (simp add: dataLines_def)
    have "\<not> (0 < fieldsPerRecord st \<and> length line \<noteq> fieldsPerRecord st)"
      using len Cons.prems(3) by auto
    then have "\<exists>st1. readRecord pairs line st = Inr st1"
      unfolding readRecord_result [OF ne Cons.prems(1)]
      by (cases "pairs \<noteq> [] \<and> hd line \<notin> set pairs") simp_all
    then obtain st1 where 1: "readRecord pairs line st = Inr st1" ..
    from readRecord_readInv [OF ne Cons.prems(1) 1] len
    have "readInv st1" and "fieldsPerRecord st1 = 0 \<or> fieldsPerRecord st1 = n" by simp_all
    from Cons.IH [OF this(1) rest this(2)] show ?thesis using False 1 by simp
  qed
qed

lemma uniformFields_lengths:
  "uniformFields csv \<Longrightarrow> \<exists>n. \<forall>line \<in> set (dataLines csv). length line = n"
  by (auto simp: uniformFields_def list_all_iff split: list.splits)

lemma readInv_init: "readInv (initReadState recs)"
  by (simp add: readInv_def initReadState_def)

lemma readLoop_stored:
  assumes "readInv st" and "readLoop pairs csv st = Inr st'"
    and "\<forall>q d. fileRecords st q = Some d \<and> R0 q \<noteq> Some d \<longrightarrow>
           0 < fieldsPerRecord st \<and> length d = fieldsPerRecord st - 1 \<and>
           historyLength st = (fieldsPerRecord st - 1) div 4"
  shows "\<forall>q d. fileRecords st' q = Some d \<and> R0 q \<noteq> Some d \<longrightarrow>
           0 < fieldsPerRecord st' \<and> length d = fieldsPerRecord st' - 1 \<and>
           historyLength st' = (fieldsPerRecord st' - 1) div 4"
  using assms
proof (induction csv arbitrary: st)
  case Nil
  then show ?case by simp
next
  case (Cons line csv)
  show ?case
  proof (cases "skippedLine line")
    case True
    then show ?thesis using Cons by simp
  next
    case False
    then have ne: "line \<noteq> []" by auto
    from Cons.prems(2) False obtain st1 where 1: "readRecord pairs line st = Inr st1"
      and 2: "stopped st1 \<and> st' = st1 \<or> readLoop pairs csv st1 = Inr st'"
      by (auto split: sum.splits if_splits)
    note i = readRecord_readInv [OF ne Cons.prems(1) 1]
    from ne have pos: "0 < length line" by simp
    have 3: "\<forall>q d. fileRecords st1 q = Some d \<and> R0 q \<noteq> Some d \<longrightarrow>
           0 < fieldsPerRecord st1 \<and> length d = fieldsPerRecord st1 - 1 \<and>
           historyLength st1 = (fieldsPerRecord st1 - 1) div 4"
    proof (intro allI impI)
      fix q d
      assume a: "fileRecords st1 q = Some d \<and> R0 q \<noteq> Some d"
      from i have f1: "fieldsPerRecord st1 = length line"
        and f0: "fieldsPerRecord st = 0 \<or> fieldsPerRecord st = length line" by simp_all
      consider (filtered) "st1 = st\<lparr>fieldsPerRecord := length line\<rparr>"
        | (accepted) "fileRecords st1 = (fileRecords st)(hd line \<mapsto> tl line)"
            "historyLength st1 = (length line - 1) div 4"
        using 1 unfolding readRecord_result [OF ne Cons.prems(1)] by (auto split: if_splits)
      then show "0 < fieldsPerRecord st1 \<and> length d = fieldsPerRecord st1 - 1 \<and>
           historyLength st1 = (fieldsPerRecord st1 - 1) div 4"
      proof cases
        case filtered
        then have "fileRecords st q = Some d" using a by simp
        with a Cons.prems(3) have "0 < fieldsPerRecord st \<and> length d = fieldsPerRecord st - 1 \<and>
           historyLength st = (fieldsPerRecord st - 1) div 4" by blast
        then show ?thesis using f0 f1 filtered by auto
      next
        case accepted
        show ?thesis
        proof (cases "q = hd line")
          case True
          then have "d = tl line" using a accepted(1) by simp
          then show ?thesis using f1 pos accepted(2) by simp
        next
          case False
          then have "fileRecords st q = Some d" using a accepted(1) by simp
          with a Cons.prems(3) have "0 < fieldsPerRecord st \<and> length d = fieldsPerRecord st - 1" by blast
          then show ?thesis using f0 f1 accepted(2) by auto
        qed
      qed
    qed
    from 2 show ?thesis
    proof
      assume "stopped st1 \<and> st' = st1"
      then show ?thesis using 3 by simp
    next
      assume "readLoop pairs csv st1 = Inr st'"
      from Cons.IH [OF _ this 3] i show ?thesis by simp
    qed
  qed
qed

lemma headerLine_skipped: "skippedLine headerLine"
  by (simp add: skippedLine_def headerLine_def)

lemma readRecord_first:
  assumes "pairs = [] \<or> p \<in> set pairs"
  shows "readRecord pairs (p # tokens) (initReadState recs) =
     Inr \<lparr>fieldsPerRecord = Suc (length tokens), historyLength = length tokens div 4,
          foundPairs = (if pairs \<noteq> [] then [p] else []),
          fileRecords = recs(p \<mapsto> tokens),
          stopped = (pairs \<noteq> [] \<and> length pairs = 1)\<rparr>"
proof -
  have "(p # tokens) \<noteq> []" by simp
  note r = readRecord_result [OF this readInv_init, of pairs recs]
  show ?thesis using assms unfolding r by (auto simp: initReadState_def)
qed

lemma read_single_line:
  assumes "pairs = [] \<or> p \<in> set pairs" and "\<not> skippedLine (p # tokens)"
  shows "readDepthRecordsFromFile [headerLine, p # tokens] pairs recs =
     Inr (recs(p \<mapsto> tokens), length tokens div 4)"
  using assms(2)
  by (simp add: readDepthRecordsFromFile_def headerLine_skipped readRecord_first [OF assms(1)])

text \<open>
  Claim C2, as stated: reading fails with a corruption error whenever an accepted line's
  token count is not a multiple of 4. It does not: a file whose only line of data holds
  five tokens is read, and its history length is 1.
\<close>

theorem read_five_tokens_counterexample:
  "length (tl (sampleOddFile ! 1)) mod 4 \<noteq> 0 \<and>
   readDepthRecordsFromFile sampleOddFile [] Map.empty =
     Inr ([''BTC-BUSD'' \<mapsto> [''16000.5'', ''1.2'', ''16001'', ''0.7'', ''16002.5'']], 1)"
proof -
  have "\<not> skippedLine [''BTC-BUSD'', ''16000.5'', ''1.2'', ''16001'', ''0.7'', ''16002.5'']"
    by (simp add: skippedLine_def)
  then show ?thesis
    by (simp add: sampleOddFile_def read_single_line)
qed

text \<open>
  Claim C2, amended: reading checks no token count for divisibility by 4. When all records
  of the file (its lines that are neither empty nor comments) have the same number of
  fields, reading succeeds, whatever that number is; a file with one line of data, for an
  accepted pair, is read as that line's tokens, with the token count divided by 4 as its
  history length. Whenever reading succeeds, all the series that it has stored have the
  same token count, and the history length it reports is that count divided by 4. (What
  happens when the field counts differ is left open here.)
\<close>

theorem readDepthRecordsFromFile_uniform:
  "(uniformFields csv \<longrightarrow>
      (\<exists>recs' hl. readDepthRecordsFromFile csv pairs recs = Inr (recs', hl))) \<and>
   (\<forall>p tokens. (pairs = [] \<or> p \<in> set pairs) \<and> \<not> skippedLine (p # tokens) \<longrightarrow>
      readDepthRecordsFromFile [headerLine, p # tokens] pairs recs =
        Inr (recs(p \<mapsto> tokens), length tokens div 4)) \<and>
   (\<forall>recs' hl. readDepthRecordsFromFile csv pairs recs = Inr (recs', hl) \<longrightarrow>
      (\<exists>n. \<forall>q d. recs' q = Some d \<and> recs q \<noteq> Some d \<longrightarrow> length d = n \<and> hl = n div 4))"
proof -
  have a: "\<exists>recs' hl. readDepthRecordsFromFile csv pairs recs = Inr (recs', hl)"
    if "uniformFields csv"
  proof -
    from uniformFields_lengths [OF that] obtain n
      where "\<forall>line \<in> set (dataLines csv). length line = n" ..
    from readLoop_uniform [OF readInv_init this, of recs pairs]
    obtain st' where "readLoop pairs csv (initReadState recs) = Inr st'"
      by (auto simp: initReadState_def)
    then show ?thesis by (simp add: readDepthRecordsFromFile_def)
  qed
  have b: "readDepthRecordsFromFile [headerLine, p # tokens] pairs recs =
        Inr (recs(p \<mapsto> tokens), length tokens div 4)"
    if "pairs = [] \<or> p \<in> set pairs" "\<not> skippedLine (p # tokens)" for p tokens
    using that by (rule read_single_line)
  have c: "\<exists>n. \<forall>q d. recs' q = Some d \<and> recs q \<noteq> Some d \<longrightarrow> length d = n \<and> hl = n div 4"
    if "readDepthRecordsFromFile csv pairs recs = Inr (recs', hl)" for recs' hl
  proof -
    from that obtain st' where 1: "readLoop pairs csv (initReadState recs) = Inr st'"
      and 2: "recs' = fileRecords st'" "hl = historyLength st'"
      by (auto simp: readDepthRecordsFromFile_def split: sum.splits)
    have "\<forall>q d. fileRecords st' q = Some d \<and> recs q \<noteq> Some d \<longrightarrow>
           0 < fieldsPerRecord st' \<and> length d = fieldsPerRecord st' - 1 \<and>
           historyLength st' = (fieldsPerRecord st' - 1) div 4"
      by (rule readLoop_stored [OF readInv_init 1]) (simp add: initReadState_def)
    then show ?thesis using 2 by blast
  qed
  show ?thesis using a b c by blast
qed

theorem readDepthRecordsFromFile_uniform_witness:
  "uniformFields sampleOddFile \<and>
   readDepthRecordsFromFile sampleOddFile [''BTC-BUSD''] Map.empty =
     Inr ([''BTC-BUSD'' \<mapsto> [''16000.5'', ''1.2'', ''16001'', ''0.7'', ''16002.5'']], 1)"
proof -
  have s: "\<not> skippedLine [''BTC-BUSD'', ''16000.5'', ''1.2'', ''16001'', ''0.7'', ''16002.5'']"
    by (simp add: skippedLine_def)
  have u: "uniformFields sampleOddFile"
    using s by (simp add: uniformFields_def dataLines_def sampleOddFile_def headerLine_skipped)
  from readDepthRecordsFromFile_uniform [of sampleOddFile "[''BTC-BUSD'']" Map.empty] s
  have "readDepthRecordsFromFile [headerLine, [''BTC-BUSD'', ''16000.5'', ''1.2'', ''16001'', ''0.7'', ''16002.5'']]
      [''BTC-BUSD''] Map.empty =
      Inr ([''BTC-BUSD'' \<mapsto> [''16000.5'', ''1.2'', ''16001'', ''0.7'', ''16002.5'']],
           length [''16000.5'', ''1.2'', ''16001'', ''0.7'', ''16002.5''] div 4)"
    by simp
  then show ?thesis using u by (simp add: sampleOddFile_def)
qed

text \<open>
  The consistency test of the reading loop never fires: the only panic of
  \<open>readDepthRecordsFromFile\<close> is the CSV reader's field-count error.
\<close>

theorem readDepthRecordsFromFile_errors:
  "readDepthRecordsFromFile csv pairs recs \<noteq> Inl (Corrupted p) \<and>
   (\<forall>e. readDepthRecordsFromFile csv pairs recs = Inl e \<longrightarrow> e = CsvFieldCount)"
proof -
  have "\<forall>e. readLoop pairs csv (initReadState recs) = Inl e \<longrightarrow> e = CsvFieldCount"
    using readLoop_readInv [OF readInv_init] by blast
  then have "\<forall>e. readDepthRecordsFromFile csv pairs recs = Inl e \<longrightarrow> e = CsvFieldCount"
    by (auto simp: readDepthRecordsFromFile_def split: sum.splits)
  then show ?thesis by auto
qed

theorem readDepthRecordsFromFile_errors_witness:
  "readDepthRecordsFromFile
     [headerLine, ''BTC-BUSD'' # sampleMinute, ''ETH-BUSD'' # sampleMinute @ sampleMinute]
     [] Map.empty = Inl CsvFieldCount"
proof -
  have n1: "\<not> skippedLine (''BTC-BUSD'' # sampleMinute)"
    and n2: "\<not> skippedLine (''ETH-BUSD'' # sampleMinute @ sampleMinute)"
    by (simp_all add: skippedLine_def)
  have r1: "readRecord [] (''BTC-BUSD'' # sampleMinute) (initReadState Map.empty) =
     Inr \<lparr>fieldsPerRecord = 5, historyLength = Suc 0, foundPairs = [],
          fileRecords = [''BTC-BUSD'' \<mapsto> sampleMinute], stopped = False\<rparr>"
    by (simp add: readRecord_first sampleMinute_def)
  have r2: "readRecord [] (''ETH-BUSD'' # sampleMinute @ sampleMinute)
       \<lparr>fieldsPerRecord = 5, historyLength = Suc 0, foundPairs = [],
          fileRecords = [''BTC-BUSD'' \<mapsto> sampleMinute], stopped = False\<rparr> = Inl CsvFieldCount"
    by (simp add: readRecord_def sampleMinute_def)
  have "\<exists>e. readDepthRecordsFromFile
     [headerLine, ''BTC-BUSD'' # sampleMinute, ''ETH-BUSD'' # sampleMinute @ sampleMinute]
     [] Map.empty = Inl e"
    by (simp add: readDepthRecordsFromFile_def headerLine_skipped n1 n2 r1 r2)
  with readDepthRecordsFromFile_errors show ?thesis by blast
qed

subsection \<open>Load\<close>

lemma processRow_error: "processRow row st = Inl e \<Longrightarrow> e = SliceBounds"
  by (auto simp: processRow_def Let_def split: list.splits if_splits)

lemma processRows_error: "processRows rows st = Inl e \<Longrightarrow> e = SliceBounds"
  by (induction rows arbitrary: st) (auto split: sum.splits dest: processRow_error)

lemma downloadDay_error:
  "downloadDay rem mkt p date = Inl e \<Longrightarrow>
   e = RemoteFailure \<or> e = SliceBounds \<or> (\<exists>n. e = WrongNumberOfRecords n)"
  by (auto simp: downloadDay_def finishDay_cases split: option.splits sum.splits if_splits
      dest: processRows_error)

lemma mapDays_error:
  "mapDays (downloadDay rem mkt p) days = Inl e \<Longrightarrow>
   e = RemoteFailure \<or> e = SliceBounds \<or> (\<exists>n. e = WrongNumberOfRecords n)"
proof (induction days)
  case Nil
  then show ?case by simp
next
  case (Cons d days)
  then show ?case
    using downloadDay_error [of rem mkt p d e] by (auto split: sum.splits)
qed

lemma loadPair_fetchPair:
  "loadPair rem mkt days p st =
     (case fetchPair rem mkt days p of Inl e \<Rightarrow> Inl e
      | Inr full \<Rightarrow> if full = [] then Inr st
                     else Inr ((fst st)(p \<mapsto> full), snd st @ [p # full]))"
  by (simp add: loadPair_def fetchPair_def Let_def split: sum.splits)

lemma fetchPair_error:
  "fetchPair rem mkt days p = Inl e \<Longrightarrow>
   e = RemoteFailure \<or> e = SliceBounds \<or> (\<exists>n. e = WrongNumberOfRecords n)"
  using mapDays_error [of rem mkt p days e] by (auto simp: fetchPair_def split: sum.splits)

lemma loadPairs_error:
  "loadPairs rem mkt days ps st = Inl e \<Longrightarrow>
   e = RemoteFailure \<or> e = SliceBounds \<or> (\<exists>n. e = WrongNumberOfRecords n)"
proof (induction ps arbitrary: st)
  case Nil
  then show ?case by simp
next
  case (Cons p ps)
  show ?case
  proof (cases "loadPair rem mkt days p st")
    case (Inl e')
    then have "e' = e" using Cons.prems by simp
    then show ?thesis using Inl fetchPair_error [of rem mkt days p e]
      by (auto simp: loadPair_fetchPair split: sum.splits if_splits)
  next
    case (Inr st')
    then show ?thesis using Cons by simp
  qed
qed

lemma Load_no_file:
  assumes "fs (pathOf startDate endDate) = None"
  shows "Load rem l fs pairs startDate endDate =
     (case loadPairs rem (market l) (daysOf startDate endDate)
             (if pairs = [] then defaultPairs else []) (records l, [headerLine]) of
        Inl e \<Rightarrow> Inl e
      | Inr (recs', csv') \<Rightarrow>
          Inr (l\<lparr>records := recs'\<rparr>, fs(pathOf startDate endDate \<mapsto> csv'), recs'))"
  using assms by (simp add: Load_def Let_def)

lemma Load_file:
  assumes "fs (pathOf startDate endDate) = Some csv"
  shows "Load rem l fs pairs startDate endDate =
     (case loadExisting csv pairs (truncMinutes (Sub endDate startDate)) (records l) of
        Inl e \<Rightarrow> Inl e
      | Inr (recs, pairsToLoad) \<Rightarrow>
          (case loadPairs rem (market l) (daysOf startDate endDate) pairsToLoad (recs, csv) of
             Inl e \<Rightarrow> Inl e
           | Inr (recs', csv') \<Rightarrow>
               Inr (l\<lparr>records := recs'\<rparr>, fs(pathOf startDate endDate \<mapsto> csv'), recs')))"
  using assms by (simp add: Load_def Let_def split: sum.splits prod.splits)

lemma Load_no_file_named_pairs:
  assumes "fs (pathOf startDate endDate) = None" and "pairs \<noteq> []"
  shows "Load rem l fs pairs startDate endDate =
     Inr (l, fs(pathOf startDate endDate \<mapsto> [headerLine]), records l)"
  using assms(2) by (simp add: Load_no_file [where fs = fs, OF assms(1)])

text \<open>
  Claim C8: when the cache file exists and has been read, with \<open>fileHistoryLength\<close> as its
  history length, \<open>Load\<close> fails with the range-mismatch panic if that length is not 0 and
  differs from the minutes of the requested range by 1400 or more; if the length is 0 or
  the difference is below 1400, \<open>Load\<close> does not fail with this panic.
\<close>

theorem Load_range_check:
  assumes "fs (pathOf startDate endDate) = Some csv"
    and "readDepthRecordsFromFile csv pairs (records l) = Inr (recs, fileHistoryLength)"
  shows "(fileHistoryLength \<noteq> 0 \<and>
          1400 \<le> \<bar>int fileHistoryLength - truncMinutes (Sub endDate startDate)\<bar> \<longrightarrow>
            Load rem l fs pairs startDate endDate = Inl RangeMismatch) \<and>
         (fileHistoryLength = 0 \<or>
          \<bar>int fileHistoryLength - truncMinutes (Sub endDate startDate)\<bar> < 1400 \<longrightarrow>
            Load rem l fs pairs startDate endDate \<noteq> Inl RangeMismatch)"
proof -
  have a: "Load rem l fs pairs startDate endDate = Inl RangeMismatch"
    if "fileHistoryLength \<noteq> 0"
      "1400 \<le> \<bar>int fileHistoryLength - truncMinutes (Sub endDate startDate)\<bar>"
    using that assms(2) by (simp add: Load_file [where fs = fs, OF assms(1)] loadExisting_def)
  have b: "Load rem l fs pairs startDate endDate \<noteq> Inl RangeMismatch"
    if "fileHistoryLength = 0 \<or>
        \<bar>int fileHistoryLength - truncMinutes (Sub endDate startDate)\<bar> < 1400"
  proof
    assume f: "Load rem l fs pairs startDate endDate = Inl RangeMismatch"
    define P where "P = filter (\<lambda>s. recs s = None)
        (if length pairs = 0 then readPairNamesFromHeader csv else pairs)"
    have e: "loadExisting csv pairs (truncMinutes (Sub endDate startDate)) (records l) = Inr (recs, P)"
      using that assms(2) by (auto simp: loadExisting_def P_def Let_def)
    from f have "loadPairs rem (market l) (daysOf startDate endDate) P (recs, csv) = Inl RangeMismatch"
      unfolding Load_file [where fs = fs, OF assms(1)] e by (simp split: sum.splits prod.splits)
    from loadPairs_error [OF this] show False by auto
  qed
  show ?thesis using a b by blast
qed

lemma length_sampleDay: "length sampleDay = 5760"
  by (simp add: sampleDay_def length_concat_replicate sampleMinute_def)

lemma sampleDay_nonempty: "sampleDay \<noteq> []"
  using length_sampleDay by auto

lemma sampleDayFile_read:
  assumes "pairs = [] \<or> ''BTC-BUSD'' \<in> set pairs"
  shows "readDepthRecordsFromFile sampleDayFile pairs recs = Inr (recs(''BTC-BUSD'' \<mapsto> sampleDay), 1440)"
proof -
  have "\<not> skippedLine (''BTC-BUSD'' # sampleDay)" by (simp add: skippedLine_def)
  from read_single_line [OF assms this] show ?thesis
    by (simp add: sampleDayFile_def length_sampleDay)
qed

lemma daysOf_sample_one_day: "daysOf 1669248000 1669334400 = [1669248000]"
  by (simp add: daysOf.simps)

lemma daysOf_sample_two_days: "daysOf 1669248000 1669420800 = [1669248000, 1669334400]"
  by (simp add: daysOf.simps)

lemma minutes_sample_one_day: "truncMinutes (Sub 1669334400 1669248000) = 1440"
  by (simp add: truncMinutes_def Sub_def)

lemma minutes_sample_two_days: "truncMinutes (Sub 1669420800 1669248000) = 2880"
  by (simp add: truncMinutes_def Sub_def)

lemma fetchPair_sample_one_day:
  "fetchPair sampleRemote mkt [1669248000] ''BTC-BUSD'' = Inr sampleDay"
  by (simp add: fetchPair_def downloadDay_sample sampleDay_def)

lemma fetchPair_sample_two_days:
  "fetchPair sampleRemote mkt [1669248000, 1669334400] ''BTC-BUSD'' = Inr sampleDay"
  by (simp add: fetchPair_def downloadDay_sample downloadDay_sample_empty dayNumber_def sampleDay_def)

lemma mapDays_sample_empty:
  "p \<noteq> ''BTC-BUSD'' \<Longrightarrow> mapDays (downloadDay sampleRemote mkt p) days = Inr (replicate (length days) [])"
  by (induction days) (simp_all add: downloadDay_sample_empty)

lemma fetchPair_sample_empty:
  "p \<noteq> ''BTC-BUSD'' \<Longrightarrow> fetchPair sampleRemote mkt days p = Inr []"
  by (simp add: fetchPair_def mapDays_sample_empty)

theorem Load_range_check_witness:
  "readDepthRecordsFromFile sampleDayFile [''BTC-BUSD''] Map.empty =
     Inr ([''BTC-BUSD'' \<mapsto> sampleDay], 1440) \<and>
   truncMinutes (Sub 1669420800 1669248000) = 2880 \<and>
   Load sampleRemote (NewCCDepthLoader ''binance'')
     [pathOf 1669248000 1669420800 \<mapsto> sampleDayFile] [''BTC-BUSD''] 1669248000 1669420800 =
     Inl RangeMismatch \<and>
   truncMinutes (Sub 1669334400 1669248000) = 1440 \<and>
   Load sampleRemote (NewCCDepthLoader ''binance'')
     [pathOf 1669248000 1669334400 \<mapsto> sampleDayFile] [''BTC-BUSD''] 1669248000 1669334400 \<noteq>
     Inl RangeMismatch"
proof -
  let ?l = "NewCCDepthLoader ''binance''"
  have r: "readDepthRecordsFromFile sampleDayFile [''BTC-BUSD''] (records ?l) =
     Inr ([''BTC-BUSD'' \<mapsto> sampleDay], 1440)"
    by (simp add: sampleDayFile_read NewCCDepthLoader_def)
  have f2: "[pathOf 1669248000 1669420800 \<mapsto> sampleDayFile] (pathOf 1669248000 1669420800) = Some sampleDayFile"
    by simp
  have f1: "[pathOf 1669248000 1669334400 \<mapsto> sampleDayFile] (pathOf 1669248000 1669334400) = Some sampleDayFile"
    by simp
  from Load_range_check [where fs = "[pathOf 1669248000 1669420800 \<mapsto> sampleDayFile]", OF f2 r, of sampleRemote]
  have a: "Load sampleRemote ?l
     [pathOf 1669248000 1669420800 \<mapsto> sampleDayFile] [''BTC-BUSD''] 1669248000 1669420800 =
     Inl RangeMismatch"
    by (simp add: minutes_sample_two_days)
  from Load_range_check [where fs = "[pathOf 1669248000 1669334400 \<mapsto> sampleDayFile]", OF f1 r, of sampleRemote]
  have b: "Load sampleRemote ?l
     [pathOf 1669248000 1669334400 \<mapsto> sampleDayFile] [''BTC-BUSD''] 1669248000 1669334400 \<noteq>
     Inl RangeMismatch"
    by (simp add: minutes_sample_one_day)
  show ?thesis
    using a b r by (simp add: minutes_sample_one_day minutes_sample_two_days NewCCDepthLoader_def)
qed

text \<open>
  Claim C1 at its failing input: no cache file, a fresh loader, the pair list
  \<open>[BTC-BUSD]\<close> and the range 24 to 25 November 2022, with a remote service that has the
  full day (5760 tokens) for the pair. \<open>Load\<close> leaves \<open>pairsToLoad\<close> empty, fetches
  nothing, writes the header line alone and returns the empty map.
\<close>

theorem Load_no_file_fetches_nothing:
  "fetchPair sampleRemote ''binance'' (daysOf 1669248000 1669334400) ''BTC-BUSD'' = Inr sampleDay \<and>
   length sampleDay = 4 * 1440 \<and>
   Load sampleRemote (NewCCDepthLoader ''binance'') Map.empty [''BTC-BUSD'']
        1669248000 1669334400 =
     Inr (NewCCDepthLoader ''binance'', [pathOf 1669248000 1669334400 \<mapsto> [headerLine]], Map.empty)"
proof -
  have "Map.empty (pathOf 1669248000 1669334400) = (None :: csvFile option)" by simp
  from Load_no_file_named_pairs [where fs = Map.empty, OF this, of "[''BTC-BUSD'']" sampleRemote
      "NewCCDepthLoader ''binance''"]
  show ?thesis
    by (simp add: daysOf_sample_one_day fetchPair_sample_one_day length_sampleDay NewCCDepthLoader_def)
qed

lemma loadPairs_result:
  assumes "loadPairs rem mkt days ps (R, F) = Inr (R', F')"
  shows "(\<forall>p \<in> set ps. \<exists>full. fetchPair rem mkt days p = Inr full \<and>
            R' p = (if full = [] then R p else Some full)) \<and>
         (\<forall>q. q \<notin> set ps \<longrightarrow> R' q = R q) \<and>
         (\<exists>new. F' = F @ new \<and>
            (\<forall>line \<in> set new. \<exists>p full. p \<in> set ps \<and> full \<noteq> [] \<and>
               fetchPair rem mkt days p = Inr full \<and> line = p # full))"
  using assms
proof (induction ps arbitrary: R F)
  case Nil
  then show ?case by simp
next
  case (Cons p ps)
  from Cons.prems obtain full where f: "fetchPair rem mkt days p = Inr full"
    and rest: "loadPairs rem mkt days ps
        (if full = [] then (R, F) else (R(p \<mapsto> full), F @ [p # full])) = Inr (R', F')"
    by (auto simp: loadPair_fetchPair split: sum.splits if_splits)
  define R1 where "R1 = (if full = [] then R else R(p \<mapsto> full))"
  define F1 where "F1 = (if full = [] then F else F @ [p # full])"
  from rest have "loadPairs rem mkt days ps (R1, F1) = Inr (R', F')"
    by (simp add: R1_def F1_def split: if_splits)
  note IH = Cons.IH [OF this]
  from IH obtain new where new: "F' = F1 @ new"
    and lines: "\<forall>line \<in> set new. \<exists>p full. p \<in> set ps \<and> full \<noteq> [] \<and>
               fetchPair rem mkt days p = Inr full \<and> line = p # full"
    by blast
  have R1p: "R1 p = (if full = [] then R p else Some full)" by (simp add: R1_def)
  have R1q: "R1 q = R q" if "q \<noteq> p" for q using that by (simp add: R1_def)
  have a: "\<exists>full'. fetchPair rem mkt days p' = Inr full' \<and>
            R' p' = (if full' = [] then R p' else Some full')" if "p' \<in> set (p # ps)" for p'
  proof (cases "p' \<in> set ps")
    case True
    with IH obtain full' where f': "fetchPair rem mkt days p' = Inr full'"
      and r: "R' p' = (if full' = [] then R1 p' else Some full')" by blast
    show ?thesis
    proof (cases "p' = p")
      case True
      with f f' have "full' = full" by simp
      then show ?thesis using f' r R1p True by auto
    next
      case False
      then show ?thesis using f' r R1q by auto
    qed
  next
    case False
    with that have "p' = p" by simp
    moreover have "R' p' = R1 p'" using IH False by blast
    ultimately show ?thesis using f R1p by auto
  qed
  have b: "R' q = R q" if "q \<notin> set (p # ps)" for q
    using that IH R1q by auto
  have c: "\<exists>new2. F' = F @ new2 \<and>
            (\<forall>line \<in> set new2. \<exists>p' full. p' \<in> set (p # ps) \<and> full \<noteq> [] \<and>
               fetchPair rem mkt days p' = Inr full \<and> line = p' # full)"
  proof (cases "full = []")
    case True
    then have "F' = F @ new" using new by (simp add: F1_def)
    then show ?thesis using lines by fastforce
  next
    case False
    then have "F' = F @ ((p # full) # new)" using new by (simp add: F1_def)
    moreover have "\<forall>line \<in> set ((p # full) # new). \<exists>p' full. p' \<in> set (p # ps) \<and> full \<noteq> [] \<and>
               fetchPair rem mkt days p' = Inr full \<and> line = p' # full"
      using lines f False by fastforce
    ultimately show ?thesis by blast
  qed
  show ?case using a b c by blast
qed

lemma readRecord_frame:
  assumes "readRecord pairs line st = Inr st'"
  shows "(pairs \<noteq> [] \<and> q \<notin> set pairs \<longrightarrow> fileRecords st' q = fileRecords st q) \<and>
         (fileRecords st q \<noteq> None \<longrightarrow> fileRecords st' q \<noteq> None)"
  using assms by (auto simp: readRecord_def Let_def split: if_splits)

lemma readLoop_frame:
  assumes "readLoop pairs csv st = Inr st'"
  shows "(pairs \<noteq> [] \<and> q \<notin> set pairs \<longrightarrow> fileRecords st' q = fileRecords st q) \<and>
         (fileRecords st q \<noteq> None \<longrightarrow> fileRecords st' q \<noteq> None)"
  using assms
proof (induction csv arbitrary: st)
  case Nil
  then show ?case by simp
next
  case (Cons line csv)
  show ?case
  proof (cases "skippedLine line")
    case True
    then show ?thesis using Cons by simp
  next
    case False
    from Cons.prems False obtain st1 where 1: "readRecord pairs line st = Inr st1"
      and 2: "stopped st1 \<and> st' = st1 \<or> readLoop pairs csv st1 = Inr st'"
      by (auto split: sum.splits if_splits)
    from 2 show ?thesis
    proof
      assume "stopped st1 \<and> st' = st1"
      then show ?thesis using readRecord_frame [OF 1, of q] by simp
    next
      assume "readLoop pairs csv st1 = Inr st'"
      from Cons.IH [OF this] readRecord_frame [OF 1, of q] show ?thesis by auto
    qed
  qed
qed

lemma loadExisting_frame:
  assumes "loadExisting csv pairs H R = Inr (R1, P)"
  shows "(pairs \<noteq> [] \<and> q \<notin> set pairs \<longrightarrow> R1 q = R q) \<and> (R q \<noteq> None \<longrightarrow> R1 q \<noteq> None) \<and>
         (pairs \<noteq> [] \<longrightarrow> set P \<subseteq> set pairs) \<and> (\<forall>p \<in> set P. R1 p = None)"
proof -
  from assms obtain st' where 1: "readLoop pairs csv (initReadState R) = Inr st'"
    and 2: "R1 = fileRecords st'"
    and 3: "P = filter (\<lambda>s. R1 s = None) (if length pairs = 0 then readPairNamesFromHeader csv else pairs)"
    by (auto simp: loadExisting_def readDepthRecordsFromFile_def Let_def split: sum.splits if_splits)
  from readLoop_frame [OF 1, of q] 2 3 show ?thesis
    by (auto simp: initReadState_def)
qed

lemma read_single_line_filtered:
  assumes "pairs \<noteq> []" and "p \<notin> set pairs" and "\<not> skippedLine (p # tokens)"
  shows "readDepthRecordsFromFile [headerLine, p # tokens] pairs recs = Inr (recs, 0)"
proof -
  have "(p # tokens) \<noteq> []" by simp
  note r = readRecord_result [OF this readInv_init, of pairs recs]
  have "readRecord pairs (p # tokens) (initReadState recs) =
      Inr ((initReadState recs)\<lparr>fieldsPerRecord := Suc (length tokens)\<rparr>)"
    using assms(1,2) unfolding r by (simp add: initReadState_def)
  then show ?thesis
    using assms(3) by (simp add: readDepthRecordsFromFile_def headerLine_skipped initReadState_def)
qed

lemma sampleEthFile_read_filtered:
  "readDepthRecordsFromFile sampleEthFile [''BTC-BUSD''] recs = Inr (recs, 0)"
proof -
  have "\<not> skippedLine (''ETH-BUSD'' # sampleEthDay)" by (simp add: skippedLine_def)
  then show ?thesis by (simp add: sampleEthFile_def read_single_line_filtered)
qed

subsection \<open>Calling Load again\<close>

lemma readInv_other_map: "readInv (st\<lparr>fileRecords := Q\<rparr>) = readInv st"
  by (simp add: readInv_def)

lemma readRecord_shift:
  assumes "line \<noteq> []" and "readInv st" and "readRecord pairs line st = Inr st'"
  shows "\<exists>D. \<forall>Q. readRecord pairs line (st\<lparr>fileRecords := Q\<rparr>) = Inr (st'\<lparr>fileRecords := Q ++ D\<rparr>)"
proof -
  have i: "readInv (st\<lparr>fileRecords := Q\<rparr>)" for Q
    using assms(2) by (simp add: readInv_other_map)
  show ?thesis
  proof (cases "pairs \<noteq> [] \<and> hd line \<notin> set pairs")
    case True
    have "\<forall>Q. readRecord pairs line (st\<lparr>fileRecords := Q\<rparr>) = Inr (st'\<lparr>fileRecords := Q ++ Map.empty\<rparr>)"
      using assms(3) True unfolding readRecord_result [OF assms(1) i] readRecord_result [OF assms(1,2)]
      by (auto split: if_splits)
    then show ?thesis by (rule exI [where x = Map.empty])
  next
    case False
    have "\<forall>Q. readRecord pairs line (st\<lparr>fileRecords := Q\<rparr>) =
        Inr (st'\<lparr>fileRecords := Q ++ [hd line \<mapsto> tl line]\<rparr>)"
      using assms(3) False unfolding readRecord_result [OF assms(1) i] readRecord_result [OF assms(1,2)]
      by (auto split: if_splits)
    then show ?thesis by (rule exI [where x = "[hd line \<mapsto> tl line]"])
  qed
qed

lemma readLoop_shift:
  assumes "readInv st" and "readLoop pairs csv st = Inr st'"
  shows "\<exists>D. \<forall>Q. readLoop pairs csv (st\<lparr>fileRecords := Q\<rparr>) = Inr (st'\<lparr>fileRecords := Q ++ D\<rparr>)"
  using assms
proof (induction csv arbitrary: st)
  case Nil
  then have "\<forall>Q. readLoop pairs [] (st\<lparr>fileRecords := Q\<rparr>) = Inr (st'\<lparr>fileRecords := Q ++ Map.empty\<rparr>)"
    by simp
  then show ?case by (rule exI [where x = Map.empty])
next
  case (Cons line csv)
  show ?case
  proof (cases "skippedLine line")
    case True
    then show ?thesis using Cons by simp
  next
    case False
    then have ne: "line \<noteq> []" by auto
    from Cons.prems(2) False obtain st1 where 1: "readRecord pairs line st = Inr st1"
      and 2: "stopped st1 \<and> st' = st1 \<or> \<not> stopped st1 \<and> readLoop pairs csv st1 = Inr st'"
      by (auto split: sum.splits if_splits)
    from readRecord_readInv [OF ne Cons.prems(1) 1] have i1: "readInv st1" by simp
    from readRecord_shift [OF ne Cons.prems(1) 1] obtain D1
      where D1: "\<forall>Q. readRecord pairs line (st\<lparr>fileRecords := Q\<rparr>) = Inr (st1\<lparr>fileRecords := Q ++ D1\<rparr>)"
      ..
    from 2 show ?thesis
    proof
      assume a: "stopped st1 \<and> st' = st1"
      then have "\<forall>Q. readLoop pairs (line # csv) (st\<lparr>fileRecords := Q\<rparr>) = Inr (st'\<lparr>fileRecords := Q ++ D1\<rparr>)"
        using False D1 by simp
      then show ?thesis by (rule exI [where x = D1])
    next
      assume a: "\<not> stopped st1 \<and> readLoop pairs csv st1 = Inr st'"
      then have "readLoop pairs csv st1 = Inr st'" by simp
      from Cons.IH [OF i1 this] obtain D2
        where D2: "\<forall>Q. readLoop pairs csv (st1\<lparr>fileRecords := Q\<rparr>) = Inr (st'\<lparr>fileRecords := Q ++ D2\<rparr>)"
        ..
      have "\<forall>Q. readLoop pairs (line # csv) (st\<lparr>fileRecords := Q\<rparr>) = Inr (st'\<lparr>fileRecords := Q ++ (D1 ++ D2)\<rparr>)"
        using False D1 a D2 by simp
      then show ?thesis by (rule exI [where x = "D1 ++ D2"])
    qed
  qed
qed

lemma readLoop_append:
  "\<not> stopped st \<Longrightarrow>
   readLoop pairs (A @ B) st =
     (case readLoop pairs A st of Inl e \<Rightarrow> Inl e
      | Inr st' \<Rightarrow> if stopped st' then Inr st' else readLoop pairs B st')"
proof (induction A arbitrary: st)
  case Nil
  then show ?case by simp
next
  case (Cons line A)
  show ?case
  proof (cases "skippedLine line")
    case True
    then show ?thesis using Cons by simp
  next
    case False
    show ?thesis
    proof (cases "readRecord pairs line st")
      case (Inl e)
      then show ?thesis using False by simp
    next
      case (Inr st1)
      then show ?thesis using False Cons.IH [of st1] by simp
    qed
  qed
qed

lemma readRecord_map:
  assumes "readRecord pairs line st = Inr st'"
  shows "fileRecords st' = fileRecords st \<or> fileRecords st' = (fileRecords st)(hd line \<mapsto> tl line)"
  using assms by (auto simp: readRecord_def Let_def split: if_splits)

lemma readLoop_nochange:
  assumes "readLoop pairs csv st = Inr st'"
    and "\<forall>line \<in> set csv. \<not> skippedLine line \<longrightarrow> fileRecords st (hd line) = Some (tl line)"
  shows "fileRecords st' = fileRecords st"
  using assms
proof (induction csv arbitrary: st)
  case Nil
  then show ?case by simp
next
  case (Cons line csv)
  show ?case
  proof (cases "skippedLine line")
    case True
    then show ?thesis using Cons by simp
  next
    case False
    from Cons.prems(1) False obtain st1 where 1: "readRecord pairs line st = Inr st1"
      and 2: "stopped st1 \<and> st' = st1 \<or> readLoop pairs csv st1 = Inr st'"
      by (auto split: sum.splits if_splits)
    from False Cons.prems(2) have "fileRecords st (hd line) = Some (tl line)" by simp
    then have "(fileRecords st)(hd line \<mapsto> tl line) = fileRecords st" by (rule map_upd_triv)
    with readRecord_map [OF 1] have same: "fileRecords st1 = fileRecords st" by auto
    from 2 show ?thesis
    proof
      assume "stopped st1 \<and> st' = st1"
      then show ?thesis using same by simp
    next
      assume "readLoop pairs csv st1 = Inr st'"
      from Cons.IH [OF this] Cons.prems(2) same show ?thesis by simp
    qed
  qed
qed

lemma readPairNamesFromHeader_append:
  "csv \<noteq> [] \<Longrightarrow> readPairNamesFromHeader (csv @ new) = readPairNamesFromHeader csv"
  by (cases csv) (simp_all add: readPairNamesFromHeader_def)

lemma readPairNamesFromHeader_headerLine:
  "readPairNamesFromHeader (headerLine # new) = defaultPairs"
  by (simp add: readPairNamesFromHeader_def headerLine_def)

lemma loadPairs_all_empty:
  "\<forall>p \<in> set ps. fetchPair rem mkt days p = Inr [] \<Longrightarrow> loadPairs rem mkt days ps st = Inr st"
  by (induction ps) (simp_all add: loadPair_fetchPair)

lemma initReadState_other_map: "(initReadState R)\<lparr>fileRecords := Q\<rparr> = initReadState Q"
  by (simp add: initReadState_def)

lemma reread_extended:
  assumes a: "readLoop pairs csv (initReadState R0) = Inr stA"
    and ext: "\<forall>q. fileRecords stA q \<noteq> None \<longrightarrow> m q = fileRecords stA q"
    and lines: "\<forall>line \<in> set new. \<not> skippedLine line \<longrightarrow> m (hd line) = Some (tl line)"
    and b: "readLoop pairs (csv @ new) (initReadState m) = Inr st3"
  shows "fileRecords st3 = m"
proof -
  from readLoop_shift [OF readInv_init a] obtain D
    where D: "\<forall>Q. readLoop pairs csv ((initReadState R0)\<lparr>fileRecords := Q\<rparr>) = Inr (stA\<lparr>fileRecords := Q ++ D\<rparr>)"
    ..
  from D have "readLoop pairs csv (initReadState R0) = Inr (stA\<lparr>fileRecords := R0 ++ D\<rparr>)"
    by (metis initReadState_other_map)
  with a have "stA = stA\<lparr>fileRecords := R0 ++ D\<rparr>" by simp
  then have "fileRecords stA = fileRecords (stA\<lparr>fileRecords := R0 ++ D\<rparr>)" by simp
  then have RA: "fileRecords stA = R0 ++ D" by simp
  have mD: "m ++ D = m"
  proof
    fix q
    show "(m ++ D) q = m q"
    proof (cases "D q")
      case None
      then show ?thesis by (simp add: map_add_def)
    next
      case (Some v)
      then have "fileRecords stA q = Some v" by (simp add: RA map_add_def)
      with ext have "m q = Some v" by simp
      then show ?thesis using Some by (simp add: map_add_def)
    qed
  qed
  from D have c: "readLoop pairs csv (initReadState m) = Inr (stA\<lparr>fileRecords := m\<rparr>)"
    by (metis initReadState_other_map mD)
  have ns: "\<not> stopped (initReadState m)" by (simp add: initReadState_def)
  from b have d: "(if stopped stA then Inr (stA\<lparr>fileRecords := m\<rparr>)
                   else readLoop pairs new (stA\<lparr>fileRecords := m\<rparr>)) = Inr st3"
    unfolding readLoop_append [OF ns] c by simp
  show ?thesis
  proof (cases "stopped stA")
    case True
    with d show ?thesis by auto
  next
    case False
    with d have "readLoop pairs new (stA\<lparr>fileRecords := m\<rparr>) = Inr st3" by simp
    from readLoop_nochange [OF this] lines show ?thesis by simp
  qed
qed

lemma Load_first_call:
  assumes first: "Load rem l fs pairs startDate endDate = Inr (l1, fs1, m1)"
    and start: "fs (pathOf startDate endDate) \<noteq> None \<or> pairs = []"
  shows "\<exists>csv1. fs1 = fs(pathOf startDate endDate \<mapsto> csv1) \<and> l1 = l\<lparr>records := m1\<rparr> \<and>
     (\<forall>st3. readLoop pairs csv1 (initReadState m1) = Inr st3 \<longrightarrow> fileRecords st3 = m1) \<and>
     (\<forall>p \<in> set (if pairs = [] then readPairNamesFromHeader csv1 else pairs).
         m1 p = None \<longrightarrow> fetchPair rem (market l) (daysOf startDate endDate) p = Inr []) \<and>
     (\<exists>new. csv1 = (case fs (pathOf startDate endDate) of None \<Rightarrow> [headerLine] | Some csv \<Rightarrow> csv) @ new \<and>
        (\<forall>line \<in> set new. \<exists>p full. full \<noteq> [] \<and>
           fetchPair rem (market l) (daysOf startDate endDate) p = Inr full \<and> line = p # full))"
proof (cases "fs (pathOf startDate endDate)")
  case None
  with start have pe: "pairs = []" by simp
  from first obtain csv1 where lp: "loadPairs rem (market l) (daysOf startDate endDate) defaultPairs
        (records l, [headerLine]) = Inr (m1, csv1)"
    and l1: "l1 = l\<lparr>records := m1\<rparr>" and f1: "fs1 = fs(pathOf startDate endDate \<mapsto> csv1)"
    unfolding Load_no_file [where fs = fs, OF None] pe
    by (auto split: sum.splits prod.splits)
  note res = loadPairs_result [OF lp]
  from res obtain new where new: "csv1 = [headerLine] @ new"
    and nl: "\<forall>line \<in> set new. \<exists>p full. p \<in> set defaultPairs \<and> full \<noteq> [] \<and>
               fetchPair rem (market l) (daysOf startDate endDate) p = Inr full \<and> line = p # full"
    by blast
  from res have ps: "\<forall>p \<in> set defaultPairs. \<exists>full.
        fetchPair rem (market l) (daysOf startDate endDate) p = Inr full \<and>
        m1 p = (if full = [] then records l p else Some full)" by blast
  have lines: "\<forall>line \<in> set new. \<not> skippedLine line \<longrightarrow> m1 (hd line) = Some (tl line)"
  proof (intro ballI impI)
    fix line assume "line \<in> set new"
    with nl obtain p full where p: "p \<in> set defaultPairs" "full \<noteq> []"
      "fetchPair rem (market l) (daysOf startDate endDate) p = Inr full" "line = p # full" by blast
    with ps obtain full' where "fetchPair rem (market l) (daysOf startDate endDate) p = Inr full'"
      "m1 p = (if full' = [] then records l p else Some full')" by blast
    with p show "m1 (hd line) = Some (tl line)" by simp
  qed
  have reread: "fileRecords st3 = m1" if "readLoop pairs csv1 (initReadState m1) = Inr st3" for st3
  proof -
    from that have "readLoop pairs new (initReadState m1) = Inr st3"
      by (simp add: new headerLine_skipped)
    from readLoop_nochange [OF this] lines show ?thesis by (simp add: initReadState_def)
  qed
  have empties: "fetchPair rem (market l) (daysOf startDate endDate) p = Inr []"
    if "p \<in> set (if pairs = [] then readPairNamesFromHeader csv1 else pairs)" "m1 p = None" for p
  proof -
    from that(1) have "p \<in> set defaultPairs"
      by (simp add: pe new readPairNamesFromHeader_headerLine)
    with ps obtain full where "fetchPair rem (market l) (daysOf startDate endDate) p = Inr full"
      "m1 p = (if full = [] then records l p else Some full)" by blast
    with that(2) show ?thesis by (cases "full = []") simp_all
  qed
  have app: "\<exists>new. csv1 = (case fs (pathOf startDate endDate) of None \<Rightarrow> [headerLine] | Some csv \<Rightarrow> csv) @ new \<and>
        (\<forall>line \<in> set new. \<exists>p full. full \<noteq> [] \<and>
           fetchPair rem (market l) (daysOf startDate endDate) p = Inr full \<and> line = p # full)"
    using new nl None by auto
  show ?thesis using f1 l1 reread empties app by blast
next
  case (Some csv)
  from first obtain R1 P csv1
    where e: "loadExisting csv pairs (truncMinutes (Sub endDate startDate)) (records l) = Inr (R1, P)"
    and lp: "loadPairs rem (market l) (daysOf startDate endDate) P (R1, csv) = Inr (m1, csv1)"
    and l1: "l1 = l\<lparr>records := m1\<rparr>" and f1: "fs1 = fs(pathOf startDate endDate \<mapsto> csv1)"
    unfolding Load_file [where fs = fs, OF Some]
    by (auto split: sum.splits prod.splits)
  from e obtain stA where a: "readLoop pairs csv (initReadState (records l)) = Inr stA"
    and R1: "R1 = fileRecords stA"
    and P: "P = filter (\<lambda>s. R1 s = None) (if pairs = [] then readPairNamesFromHeader csv else pairs)"
    by (auto simp: loadExisting_def readDepthRecordsFromFile_def Let_def split: sum.splits if_splits)
  note res = loadPairs_result [OF lp]
  from res obtain new where new: "csv1 = csv @ new"
    and nl: "\<forall>line \<in> set new. \<exists>p full. p \<in> set P \<and> full \<noteq> [] \<and>
               fetchPair rem (market l) (daysOf startDate endDate) p = Inr full \<and> line = p # full"
    by blast
  from res have ps: "\<forall>p \<in> set P. \<exists>full.
        fetchPair rem (market l) (daysOf startDate endDate) p = Inr full \<and>
        m1 p = (if full = [] then R1 p else Some full)" by blast
  from res have others: "\<forall>q. q \<notin> set P \<longrightarrow> m1 q = R1 q" by blast
  have ext: "\<forall>q. fileRecords stA q \<noteq> None \<longrightarrow> m1 q = fileRecords stA q"
  proof (intro allI impI)
    fix q assume "fileRecords stA q \<noteq> None"
    then have "q \<notin> set P" by (simp add: P R1)
    with others show "m1 q = fileRecords stA q" by (simp add: R1)
  qed
  have lines: "\<forall>line \<in> set new. \<not> skippedLine line \<longrightarrow> m1 (hd line) = Some (tl line)"
  proof (intro ballI impI)
    fix line assume "line \<in> set new"
    with nl obtain p full where p: "p \<in> set P" "full \<noteq> []"
      "fetchPair rem (market l) (daysOf startDate endDate) p = Inr full" "line = p # full" by blast
    with ps obtain full' where "fetchPair rem (market l) (daysOf startDate endDate) p = Inr full'"
      "m1 p = (if full' = [] then R1 p else Some full')" by blast
    with p show "m1 (hd line) = Some (tl line)" by simp
  qed
  have reread: "fileRecords st3 = m1" if "readLoop pairs csv1 (initReadState m1) = Inr st3" for st3
    using reread_extended [OF a ext lines] that by (simp add: new)
  have empties: "fetchPair rem (market l) (daysOf startDate endDate) p = Inr []"
    if "p \<in> set (if pairs = [] then readPairNamesFromHeader csv1 else pairs)" "m1 p = None" for p
  proof -
    have base: "p \<in> set (if pairs = [] then readPairNamesFromHeader csv else pairs)"
    proof (cases "csv = []")
      case True
      then have "pairs = [] \<longrightarrow> P = []" by (simp add: P readPairNamesFromHeader_def)
      moreover have "P = [] \<longrightarrow> new = []" using nl by (cases new) auto
      ultimately show ?thesis using that(1) True new by (auto simp: readPairNamesFromHeader_def)
    next
      case False
      then show ?thesis using that(1)
        by (cases "pairs = []") (simp_all add: new readPairNamesFromHeader_append)
    qed
    have "R1 p = None"
    proof (rule ccontr)
      assume "R1 p \<noteq> None"
      with ext have "m1 p = R1 p" by (simp add: R1)
      with that(2) \<open>R1 p \<noteq> None\<close> show False by simp
    qed
    with base have "p \<in> set P" by (simp add: P)
    with ps obtain full where "fetchPair rem (market l) (daysOf startDate endDate) p = Inr full"
      "m1 p = (if full = [] then R1 p else Some full)" by blast
    with that(2) show ?thesis by (cases "full = []") simp_all
  qed
  have app: "\<exists>new. csv1 = (case fs (pathOf startDate endDate) of None \<Rightarrow> [headerLine] | Some csv \<Rightarrow> csv) @ new \<and>
        (\<forall>line \<in> set new. \<exists>p full. full \<noteq> [] \<and>
           fetchPair rem (market l) (daysOf startDate endDate) p = Inr full \<and> line = p # full)"
    using new nl Some by auto
  show ?thesis using f1 l1 reread empties app by blast
qed

text \<open>
  Claim C6, as stated: after a successful \<open>Load\<close>, a second \<open>Load\<close> with the same arguments
  returns an equal map and appends nothing. It need not return at all: with no cache file,
  the empty pair list and the range of 24 to 26 November 2022, where the remote service
  has data for the first day only, the first call succeeds and stores 1440 minutes for
  \<open>BTC-BUSD\<close>; the second call then reads 1440 minutes from the file, expects 2880, and
  panics.
\<close>

theorem Load_again_fails_counterexample:
  "Load sampleRemote (NewCCDepthLoader ''binance'') Map.empty [] 1669248000 1669420800 =
     Inr ((NewCCDepthLoader ''binance'')\<lparr>records := [''BTC-BUSD'' \<mapsto> sampleDay]\<rparr>,
          [pathOf 1669248000 1669420800 \<mapsto> sampleDayFile],
          [''BTC-BUSD'' \<mapsto> sampleDay]) \<and>
   Load sampleRemote ((NewCCDepthLoader ''binance'')\<lparr>records := [''BTC-BUSD'' \<mapsto> sampleDay]\<rparr>)
     [pathOf 1669248000 1669420800 \<mapsto> sampleDayFile] [] 1669248000 1669420800 =
     Inl RangeMismatch"
proof -
  let ?l = "NewCCDepthLoader ''binance''"
  let ?fs1 = "[pathOf 1669248000 1669420800 \<mapsto> sampleDayFile]"
  have n: "Map.empty (pathOf 1669248000 1669420800) = (None :: csvFile option)" by simp
  have lp: "loadPairs sampleRemote ''binance'' [1669248000, 1669334400] defaultPairs
      (Map.empty, [headerLine]) = Inr ([''BTC-BUSD'' \<mapsto> sampleDay], sampleDayFile)"
    by (simp add: defaultPairs_def loadPair_fetchPair fetchPair_sample_empty
        fetchPair_sample_two_days sampleDay_nonempty sampleDayFile_def)
  have a: "Load sampleRemote ?l Map.empty [] 1669248000 1669420800 =
     Inr (?l\<lparr>records := [''BTC-BUSD'' \<mapsto> sampleDay]\<rparr>, ?fs1, [''BTC-BUSD'' \<mapsto> sampleDay])"
    unfolding Load_no_file [where fs = Map.empty, OF n]
    by (simp add: daysOf_sample_two_days NewCCDepthLoader_def lp)
  have s: "?fs1 (pathOf 1669248000 1669420800) = Some sampleDayFile" by simp
  have b: "Load sampleRemote (?l\<lparr>records := [''BTC-BUSD'' \<mapsto> sampleDay]\<rparr>) ?fs1 []
      1669248000 1669420800 = Inl RangeMismatch"
    unfolding Load_file [where fs = ?fs1, OF s]
    by (simp add: loadExisting_def sampleDayFile_read minutes_sample_two_days)
  show ?thesis using a b by simp
qed

lemma downloadDay_length:
  "downloadDay rem mkt p date = Inr S \<Longrightarrow> S = [] \<or> length S = 5760"
  by (auto simp: downloadDay_def finishDay_cases split: option.splits sum.splits if_splits)

lemma fetchPair_one_day:
  "fetchPair rem mkt [d] p = Inr full \<Longrightarrow> full = [] \<or> length full = 5760"
  using downloadDay_length [of rem mkt p d]
  by (auto simp: fetchPair_def split: sum.splits)

lemma daysOf_one_day: "daysOf s (s + 86400) = [s]"
  by (simp add: daysOf.simps)

lemma minutes_one_day: "truncMinutes (Sub (s + 86400) s) = 1440"
  by (simp add: truncMinutes_def Sub_def)

lemma dataLines_append: "dataLines (a @ b) = dataLines a @ dataLines b"
  by (simp add: dataLines_def)

lemma readLoop_uniform_state:
  assumes "readInv st"
    and "\<forall>line \<in> set (dataLines csv). length line = n"
    and "fieldsPerRecord st = 0 \<or> fieldsPerRecord st = n"
  shows "\<exists>st'. readLoop pairs csv st = Inr st' \<and> readInv st' \<and>
           (fieldsPerRecord st' = 0 \<or> fieldsPerRecord st' = n)"
  using assms
proof (induction csv arbitrary: st)
  case Nil
  then show ?case by simp
next
  case (Cons line csv)
  have rest: "\<forall>l \<in> set (dataLines csv). length l = n"
    using Cons.prems(2) by (simp add: dataLines_def)
  show ?case
  proof (cases "skippedLine line")
    case True
    then show ?thesis using Cons.IH [OF Cons.prems(1) rest Cons.prems(3)] by simp
  next
    case False
    then have ne: "line \<noteq> []" by auto
    from False Cons.prems(2) have len: "length line = n" by (simp add: dataLines_def)
    have "\<not> (0 < fieldsPerRecord st \<and> length line \<noteq> fieldsPerRecord st)"
      using len Cons.prems(3) by auto
    then have "\<exists>st1. readRecord pairs line st = Inr st1"
      unfolding readRecord_result [OF ne Cons.prems(1)]
      by (cases "pairs \<noteq> [] \<and> hd line \<notin> set pairs") simp_all
    then obtain st1 where 1: "readRecord pairs line st = Inr st1" ..
    from readRecord_readInv [OF ne Cons.prems(1) 1] len
    have i1: "readInv st1" and f1: "fieldsPerRecord st1 = 0 \<or> fieldsPerRecord st1 = n" by simp_all
    show ?thesis
    proof (cases "stopped st1")
      case True
      then show ?thesis using False 1 i1 f1 by simp
    next
      case s: False
      from Cons.IH [OF i1 rest f1] show ?thesis using False 1 s by simp
    qed
  qed
qed

lemma Load_again_if_reread:
  assumes first: "Load rem l fs pairs startDate endDate = Inr (l1, fs1, m1)"
    and start: "fs (pathOf startDate endDate) \<noteq> None \<or> pairs = []"
    and s1: "fs1 (pathOf startDate endDate) = Some csv1"
    and e: "loadExisting csv1 pairs (truncMinutes (Sub endDate startDate)) m1 = Inr (R3, P)"
  shows "Load rem l1 fs1 pairs startDate endDate = Inr (l1, fs1, m1)"
proof -
  from Load_first_call [OF first start] obtain csv1'
    where f1: "fs1 = fs(pathOf startDate endDate \<mapsto> csv1')"
      and l1: "l1 = l\<lparr>records := m1\<rparr>"
      and reread: "\<forall>st3. readLoop pairs csv1' (initReadState m1) = Inr st3 \<longrightarrow> fileRecords st3 = m1"
      and empties: "\<forall>p \<in> set (if pairs = [] then readPairNamesFromHeader csv1' else pairs).
         m1 p = None \<longrightarrow> fetchPair rem (market l) (daysOf startDate endDate) p = Inr []"
    by blast
  from f1 s1 have c: "csv1' = csv1" by simp
  have r1: "records l1 = m1" and k1: "market l1 = market l" by (simp_all add: l1)
  from e obtain st3 where a: "readLoop pairs csv1 (initReadState m1) = Inr st3"
    and R3: "R3 = fileRecords st3"
    and P: "P = filter (\<lambda>s. R3 s = None) (if pairs = [] then readPairNamesFromHeader csv1 else pairs)"
    by (auto simp: loadExisting_def readDepthRecordsFromFile_def Let_def split: sum.splits if_splits)
  from reread a R3 c have R3m: "R3 = m1" by simp
  have "\<forall>p \<in> set P. fetchPair rem (market l) (daysOf startDate endDate) p = Inr []"
    using empties by (simp add: P R3m c)
  from loadPairs_all_empty [OF this]
  have lp: "loadPairs rem (market l) (daysOf startDate endDate) P (m1, csv1) = Inr (m1, csv1)" .
  have "l1\<lparr>records := m1\<rparr> = l1" by (simp add: l1)
  moreover have "fs1(pathOf startDate endDate \<mapsto> csv1) = fs1" using s1 by (rule map_upd_triv)
  ultimately show ?thesis
    unfolding Load_file [where fs = fs1, OF s1] r1 k1 e
    by (simp add: R3m lp)
qed

text \<open>
  Claim C6, amended: when the cache file of the range exists before the first call, or the
  pair list is empty, and \<open>Load\<close> succeeds, then a second \<open>Load\<close> with the same arguments (on
  the loader and the files as the first call left them, the remote service answering as
  before) that succeeds as well returns the same map, leaves every file as it was (it
  appends no line) and leaves the loader as it was. The second call can fail where the
  first did not; it does succeed when the range is exactly one day and the cache file held
  no record (it did not exist, or held the header line alone) before the first call.
\<close>

theorem Load_again_same:
  assumes first: "Load rem l fs pairs startDate endDate = Inr (l1, fs1, m1)"
    and start: "fs (pathOf startDate endDate) \<noteq> None \<or> pairs = []"
  shows "(\<forall>l2 fs2 m2. Load rem l1 fs1 pairs startDate endDate = Inr (l2, fs2, m2) \<longrightarrow>
            m2 = m1 \<and> fs2 = fs1 \<and> l2 = l1) \<and>
         (endDate = startDate + 86400 \<and>
          (\<forall>csv. fs (pathOf startDate endDate) = Some csv \<longrightarrow> dataLines csv = []) \<longrightarrow>
            Load rem l1 fs1 pairs startDate endDate = Inr (l1, fs1, m1))"
proof -
  from Load_first_call [OF first start] obtain csv1 new
    where f1: "fs1 = fs(pathOf startDate endDate \<mapsto> csv1)"
      and new: "csv1 = (case fs (pathOf startDate endDate) of None \<Rightarrow> [headerLine] | Some csv \<Rightarrow> csv) @ new"
      and lines: "\<forall>line \<in> set new. \<exists>p full. full \<noteq> [] \<and>
           fetchPair rem (market l) (daysOf startDate endDate) p = Inr full \<and> line = p # full"
    by blast
  have s1: "fs1 (pathOf startDate endDate) = Some csv1" by (simp add: f1)
  have a: "m2 = m1 \<and> fs2 = fs1 \<and> l2 = l1"
    if second: "Load rem l1 fs1 pairs startDate endDate = Inr (l2, fs2, m2)" for l2 fs2 m2
  proof -
    from second obtain R3 P
      where "loadExisting csv1 pairs (truncMinutes (Sub endDate startDate)) (records l1) = Inr (R3, P)"
      unfolding Load_file [where fs = fs1, OF s1] by (auto split: sum.splits prod.splits)
    moreover have "records l1 = m1"
      using Load_first_call [OF first start] by auto
    ultimately have "loadExisting csv1 pairs (truncMinutes (Sub endDate startDate)) m1 = Inr (R3, P)"
      by simp
    from Load_again_if_reread [OF first start s1 this] second show ?thesis by simp
  qed
  have b: "Load rem l1 fs1 pairs startDate endDate = Inr (l1, fs1, m1)"
    if day: "endDate = startDate + 86400"
      and empty: "\<forall>csv. fs (pathOf startDate endDate) = Some csv \<longrightarrow> dataLines csv = []"
  proof -
    have old: "dataLines (case fs (pathOf startDate endDate) of None \<Rightarrow> [headerLine] | Some csv \<Rightarrow> csv) = []"
      using empty by (auto simp: dataLines_def headerLine_skipped split: option.splits)
    have len: "\<forall>line \<in> set (dataLines csv1). length line = 5761"
    proof
      fix line assume "line \<in> set (dataLines csv1)"
      then have "line \<in> set new" by (simp add: new dataLines_append old) (simp add: dataLines_def)
      with lines obtain p full where p: "full \<noteq> []"
        "fetchPair rem (market l) (daysOf startDate endDate) p = Inr full" "line = p # full" by blast
      from p(2) have "fetchPair rem (market l) [startDate] p = Inr full"
        by (simp add: day daysOf_one_day)
      from fetchPair_one_day [OF this] p(1) have "length full = 5760" by simp
      then show "length line = 5761" by (simp add: p(3))
    qed
    have "fieldsPerRecord (initReadState m1) = 0 \<or> fieldsPerRecord (initReadState m1) = 5761"
      by (simp add: initReadState_def)
    from readLoop_uniform_state [OF readInv_init len this, of pairs] obtain st3
      where r: "readLoop pairs csv1 (initReadState m1) = Inr st3"
        and i: "readInv st3" and f: "fieldsPerRecord st3 = 0 \<or> fieldsPerRecord st3 = 5761"
      by blast
    from i f have h: "historyLength st3 = 0 \<or> historyLength st3 = 1440"
      by (auto simp: readInv_def)
    have "loadExisting csv1 pairs (truncMinutes (Sub endDate startDate)) m1 =
        Inr (fileRecords st3, filter (\<lambda>s. fileRecords st3 s = None)
          (if length pairs = 0 then readPairNamesFromHeader csv1 else pairs))"
      using h by (auto simp: loadExisting_def readDepthRecordsFromFile_def r day minutes_one_day Let_def)
    from Load_again_if_reread [OF first start s1 this] show ?thesis .
  qed
  show ?thesis using a b by blast
qed

lemma headerFile_read: "readDepthRecordsFromFile [headerLine] pairs recs = Inr (recs, 0)"
  by (simp add: readDepthRecordsFromFile_def headerLine_skipped initReadState_def)

theorem Load_again_same_witness:
  "Load sampleRemote (NewCCDepthLoader ''binance'') [pathOf 1669248000 1669334400 \<mapsto> [headerLine]]
      [''BTC-BUSD''] 1669248000 1669334400 =
     Inr ((NewCCDepthLoader ''binance'')\<lparr>records := [''BTC-BUSD'' \<mapsto> sampleDay]\<rparr>,
          [pathOf 1669248000 1669334400 \<mapsto> sampleDayFile],
          [''BTC-BUSD'' \<mapsto> sampleDay]) \<and>
   [pathOf 1669248000 1669334400 \<mapsto> [headerLine]] (pathOf 1669248000 1669334400) \<noteq> None \<and>
   dataLines [headerLine] = [] \<and>
   Load sampleRemote ((NewCCDepthLoader ''binance'')\<lparr>records := [''BTC-BUSD'' \<mapsto> sampleDay]\<rparr>)
      [pathOf 1669248000 1669334400 \<mapsto> sampleDayFile] [''BTC-BUSD''] 1669248000 1669334400 =
     Inr ((NewCCDepthLoader ''binance'')\<lparr>records := [''BTC-BUSD'' \<mapsto> sampleDay]\<rparr>,
          [pathOf 1669248000 1669334400 \<mapsto> sampleDayFile],
          [''BTC-BUSD'' \<mapsto> sampleDay])"
proof -
  let ?l = "NewCCDepthLoader ''binance''"
  let ?l1 = "?l\<lparr>records := [''BTC-BUSD'' \<mapsto> sampleDay]\<rparr>"
  let ?fs = "[pathOf 1669248000 1669334400 \<mapsto> [headerLine]]"
  let ?fs1 = "[pathOf 1669248000 1669334400 \<mapsto> sampleDayFile]"
  have s: "?fs (pathOf 1669248000 1669334400) = Some [headerLine]" by simp
  have h1: "Load sampleRemote ?l ?fs [''BTC-BUSD''] 1669248000 1669334400 =
      Inr (?l1, ?fs1, [''BTC-BUSD'' \<mapsto> sampleDay])"
    unfolding Load_file [where fs = ?fs, OF s]
    by (simp add: loadExisting_def headerFile_read minutes_sample_one_day daysOf_sample_one_day
        NewCCDepthLoader_def loadPair_fetchPair fetchPair_sample_one_day sampleDay_nonempty
        sampleDayFile_def)
  have h3: "?fs (pathOf 1669248000 1669334400) \<noteq> None \<or> [''BTC-BUSD''] = []" by simp
  have d: "dataLines [headerLine] = []" by (simp add: dataLines_def headerLine_skipped)
  have "(1669334400::int) = 1669248000 + 86400 \<and>
        (\<forall>csv. ?fs (pathOf 1669248000 1669334400) = Some csv \<longrightarrow> dataLines csv = [])"
    using d by simp
  with Load_again_same [OF h1 h3]
  have "Load sampleRemote ?l1 ?fs1 [''BTC-BUSD''] 1669248000 1669334400 =
      Inr (?l1, ?fs1, [''BTC-BUSD'' \<mapsto> sampleDay])"
    by blast
  then show ?thesis using h1 d by simp
qed

subsection \<open>What a call keeps\<close>

text \<open>
  What every successful \<open>Load\<close> keeps. It returns the loader's whole map after the call.
  No entry of the map is removed; when the call names pairs, the entry of every other pair
  is what it was before. The cache file of the range is only extended: its lines before
  the call (the header line, for a file the call creates) are followed by the lines that
  the call appends, and each such line holds a pair and the series that the returned map
  has for it. When the file existed before the call, every pair that the call names has an
  entry in the returned map, unless the remote service has no data for it in the range.
  No other file changes, and the cursor stays where it was.
\<close>

theorem Load_accumulates:
  assumes "Load rem l fs pairs startDate endDate = Inr (l', fs', m)"
  shows "m = records l' \<and> index l' = index l \<and>
     (\<forall>q. records l q \<noteq> None \<longrightarrow> m q \<noteq> None) \<and>
     (\<forall>q. pairs \<noteq> [] \<and> q \<notin> set pairs \<longrightarrow> m q = records l q) \<and>
     (\<exists>new. fs' (pathOf startDate endDate) =
         Some ((case fs (pathOf startDate endDate) of None \<Rightarrow> [headerLine] | Some csv \<Rightarrow> csv) @ new) \<and>
        (\<forall>line \<in> set new. \<exists>q full. line = q # full \<and> full \<noteq> [] \<and> m q = Some full)) \<and>
     (fs (pathOf startDate endDate) \<noteq> None \<longrightarrow>
        (\<forall>p \<in> set pairs. m p = None \<longrightarrow>
           fetchPair rem (market l) (daysOf startDate endDate) p = Inr [])) \<and>
     (\<forall>path. path \<noteq> pathOf startDate endDate \<longrightarrow> fs' path = fs path)"
proof -
  define path where "path = pathOf startDate endDate"
  define old where "old = (case fs path of None \<Rightarrow> [headerLine] | Some csv \<Rightarrow> csv)"
  have "\<exists>R1 P. loadPairs rem (market l) (daysOf startDate endDate) P (R1, old) = Inr (m, the (fs' path)) \<and>
      (\<forall>q. pairs \<noteq> [] \<and> q \<notin> set pairs \<longrightarrow> R1 q = records l q) \<and>
      (\<forall>q. records l q \<noteq> None \<longrightarrow> R1 q \<noteq> None) \<and>
      (pairs \<noteq> [] \<longrightarrow> set P \<subseteq> set pairs) \<and>
      l' = l\<lparr>records := m\<rparr> \<and> fs' = fs(path \<mapsto> the (fs' path))"
  proof (cases "fs path")
    case None
    then have n: "fs (pathOf startDate endDate) = None" by (simp add: path_def)
    from assms have "loadPairs rem (market l) (daysOf startDate endDate)
          (if pairs = [] then defaultPairs else []) (records l, old) = Inr (m, the (fs' path)) \<and>
        l' = l\<lparr>records := m\<rparr> \<and> fs' = fs(path \<mapsto> the (fs' path))"
      unfolding Load_no_file [where fs = fs, OF n] old_def None path_def [symmetric]
      by (auto split: sum.splits prod.splits)
    then show ?thesis
      by (intro exI [where x = "records l"] exI [where x = "if pairs = [] then defaultPairs else []"])
        simp
  next
    case (Some csv)
    then have s: "fs (pathOf startDate endDate) = Some csv" by (simp add: path_def)
    from assms obtain R1 P where e: "loadExisting csv pairs (truncMinutes (Sub endDate startDate)) (records l) = Inr (R1, P)"
      and lp: "loadPairs rem (market l) (daysOf startDate endDate) P (R1, csv) = Inr (m, the (fs' path))"
      and l': "l' = l\<lparr>records := m\<rparr>" and f': "fs' = fs(path \<mapsto> the (fs' path))"
      unfolding Load_file [where fs = fs, OF s] path_def [symmetric]
      by (auto split: sum.splits prod.splits)
    have 1: "\<forall>q. pairs \<noteq> [] \<and> q \<notin> set pairs \<longrightarrow> R1 q = records l q"
      using loadExisting_frame [OF e] by blast
    have 2: "\<forall>q. records l q \<noteq> None \<longrightarrow> R1 q \<noteq> None"
      using loadExisting_frame [OF e] by blast
    have 3: "pairs \<noteq> [] \<longrightarrow> set P \<subseteq> set pairs"
      using loadExisting_frame [OF e] by blast
    have 4: "old = csv" by (simp add: old_def Some)
    show ?thesis
      using lp l' f' 1 2 3 unfolding 4
      by (intro exI [where x = R1] exI [where x = P]) blast
  qed
  then obtain R1 P where lp: "loadPairs rem (market l) (daysOf startDate endDate) P (R1, old) = Inr (m, the (fs' path))"
    and fr: "\<forall>q. pairs \<noteq> [] \<and> q \<notin> set pairs \<longrightarrow> R1 q = records l q"
    and dm: "\<forall>q. records l q \<noteq> None \<longrightarrow> R1 q \<noteq> None"
    and sub: "pairs \<noteq> [] \<longrightarrow> set P \<subseteq> set pairs"
    and l': "l' = l\<lparr>records := m\<rparr>" and f': "fs' = fs(path \<mapsto> the (fs' path))"
    by blast
  note res = loadPairs_result [OF lp]
  from res have ps: "\<forall>p \<in> set P. \<exists>full. fetchPair rem (market l) (daysOf startDate endDate) p = Inr full \<and>
            m p = (if full = [] then R1 p else Some full)" by blast
  from res have others: "\<forall>q. q \<notin> set P \<longrightarrow> m q = R1 q" by blast
  from res obtain new where new: "the (fs' path) = old @ new"
    and lines: "\<forall>line \<in> set new. \<exists>p full. p \<in> set P \<and> full \<noteq> [] \<and>
               fetchPair rem (market l) (daysOf startDate endDate) p = Inr full \<and> line = p # full"
    by blast
  have a: "m = records l' \<and> index l' = index l" using l' by simp
  have b: "m q \<noteq> None" if "records l q \<noteq> None" for q
  proof (cases "q \<in> set P")
    case True
    with ps obtain full where "m q = (if full = [] then R1 q else Some full)" by blast
    then show ?thesis using dm that by auto
  next
    case False
    then show ?thesis using others dm that by simp
  qed
  have c: "m q = records l q" if "pairs \<noteq> [] \<and> q \<notin> set pairs" for q
  proof -
    from that sub have "q \<notin> set P" by blast
    then show ?thesis using others fr that by simp
  qed
  have d: "\<exists>q full. line = q # full \<and> full \<noteq> [] \<and> m q = Some full" if "line \<in> set new" for line
  proof -
    from lines that obtain p full where p: "p \<in> set P" "full \<noteq> []"
      "fetchPair rem (market l) (daysOf startDate endDate) p = Inr full" "line = p # full" by blast
    from ps p(1) obtain full' where "fetchPair rem (market l) (daysOf startDate endDate) p = Inr full'"
      "m p = (if full' = [] then R1 p else Some full')" by blast
    with p have "m p = Some full" by simp
    then show ?thesis using p by blast
  qed
  have e: "fs' path = Some (old @ new)"
    using f' new by (metis fun_upd_same)
  have f: "fs' p = fs p" if "p \<noteq> path" for p
    using f' that by (metis fun_upd_other)
  have g: "fetchPair rem (market l) (daysOf startDate endDate) p = Inr []"
    if "fs (pathOf startDate endDate) \<noteq> None" "p \<in> set pairs" "m p = None" for p
  proof -
    from that(1) have "fs (pathOf startDate endDate) \<noteq> None \<or> pairs = []" by simp
    from Load_first_call [OF assms this] that(2,3) show ?thesis by (cases "pairs = []") auto
  qed
  show ?thesis
    using a b c d e f g unfolding path_def old_def by blast
qed

theorem Load_accumulates_witness:
  "Load sampleRemote sampleEthLoader [pathOf 1669248000 1669334400 \<mapsto> sampleEthFile]
      [''BTC-BUSD''] 1669248000 1669334400 =
     Inr (sampleEthLoader\<lparr>records := [''ETH-BUSD'' \<mapsto> sampleEthDay, ''BTC-BUSD'' \<mapsto> sampleDay]\<rparr>,
          [pathOf 1669248000 1669334400 \<mapsto> sampleEthFile @ [''BTC-BUSD'' # sampleDay]],
          [''ETH-BUSD'' \<mapsto> sampleEthDay, ''BTC-BUSD'' \<mapsto> sampleDay]) \<and>
   records sampleEthLoader ''ETH-BUSD'' = Some sampleEthDay \<and>
   [''ETH-BUSD'' \<mapsto> sampleEthDay, ''BTC-BUSD'' \<mapsto> sampleDay] ''ETH-BUSD'' = records sampleEthLoader ''ETH-BUSD''"
proof -
  let ?fs = "[pathOf 1669248000 1669334400 \<mapsto> sampleEthFile]"
  let ?m = "[''ETH-BUSD'' \<mapsto> sampleEthDay, ''BTC-BUSD'' \<mapsto> sampleDay]"
  have f: "?fs (pathOf 1669248000 1669334400) = Some sampleEthFile" by simp
  have e: "loadExisting sampleEthFile [''BTC-BUSD''] 1440 [''ETH-BUSD'' \<mapsto> sampleEthDay] =
      Inr ([''ETH-BUSD'' \<mapsto> sampleEthDay], [''BTC-BUSD''])"
    by (simp add: loadExisting_def sampleEthFile_read_filtered)
  have h: "Load sampleRemote sampleEthLoader ?fs [''BTC-BUSD''] 1669248000 1669334400 =
     Inr (sampleEthLoader\<lparr>records := ?m\<rparr>,
          [pathOf 1669248000 1669334400 \<mapsto> sampleEthFile @ [''BTC-BUSD'' # sampleDay]], ?m)"
    unfolding Load_file [where fs = ?fs, OF f]
    by (simp add: minutes_sample_one_day daysOf_sample_one_day sampleEthLoader_def e
        loadPair_fetchPair fetchPair_sample_one_day sampleDay_nonempty)
  from Load_accumulates [OF h]
  have "[''BTC-BUSD''] \<noteq> [] \<and> ''ETH-BUSD'' \<notin> set [''BTC-BUSD''] \<longrightarrow>
      ?m ''ETH-BUSD'' = records sampleEthLoader ''ETH-BUSD''"
    by blast
  then have "?m ''ETH-BUSD'' = records sampleEthLoader ''ETH-BUSD''" by simp
  moreover have "records sampleEthLoader ''ETH-BUSD'' = Some sampleEthDay"
    by (simp add: sampleEthLoader_def)
  ultimately show ?thesis using h by simp
qed

subsection \<open>A new pair without a cache file\<close>

lemma downloadDay_sampleAll:
  "downloadDay sampleRemoteAll mkt p 1669248000 = Inr sampleDay"
  by (simp add: downloadDay_def sampleRemoteAll_def dayNumber_def sampleRows_processed
      finishDay_cases length_concat_replicate sampleMinute_def sampleDay_def)

lemma fetchPair_sampleAll:
  "fetchPair sampleRemoteAll mkt [1669248000] p = Inr sampleDay"
  by (simp add: fetchPair_def downloadDay_sampleAll)

text \<open>
  Claim C7 at its failing input: a fresh loader, no cache file, the range 24 to 25
  November 2022 and a remote service that has the full day for every pair. The call
  \<open>Load [BTC-BUSD]\<close> leaves \<open>pairsToLoad\<close> empty: it writes the header line alone and returns
  the empty map. The following call \<open>Load [ETH-BUSD]\<close> finds the file, fetches its pair and
  returns a map that holds \<open>ETH-BUSD\<close> alone: the pair of the earlier call is not in it. In
  the same way, with \<open>ETH-BUSD\<close> in memory and no cache file for the range,
  \<open>Load [BTC-BUSD]\<close> returns the map as it was, without an entry for the pair it names.
\<close>

theorem Load_new_pair_no_file_not_added:
  "fetchPair sampleRemoteAll ''binance'' (daysOf 1669248000 1669334400) ''BTC-BUSD'' = Inr sampleDay \<and>
   Load sampleRemoteAll (NewCCDepthLoader ''binance'') Map.empty [''BTC-BUSD'']
        1669248000 1669334400 =
     Inr (NewCCDepthLoader ''binance'', [pathOf 1669248000 1669334400 \<mapsto> [headerLine]], Map.empty) \<and>
   Load sampleRemoteAll (NewCCDepthLoader ''binance'')
        [pathOf 1669248000 1669334400 \<mapsto> [headerLine]] [''ETH-BUSD''] 1669248000 1669334400 =
     Inr ((NewCCDepthLoader ''binance'')\<lparr>records := [''ETH-BUSD'' \<mapsto> sampleDay]\<rparr>,
          [pathOf 1669248000 1669334400 \<mapsto> [headerLine, ''ETH-BUSD'' # sampleDay]],
          [''ETH-BUSD'' \<mapsto> sampleDay]) \<and>
   [''ETH-BUSD'' \<mapsto> sampleDay] ''BTC-BUSD'' = None \<and>
   Load sampleRemoteAll sampleEthLoader Map.empty [''BTC-BUSD''] 1669248000 1669334400 =
     Inr (sampleEthLoader, [pathOf 1669248000 1669334400 \<mapsto> [headerLine]],
          [''ETH-BUSD'' \<mapsto> sampleEthDay]) \<and>
   [''ETH-BUSD'' \<mapsto> sampleEthDay] ''BTC-BUSD'' = None"
proof -
  let ?l = "NewCCDepthLoader ''binance''"
  let ?fs1 = "[pathOf 1669248000 1669334400 \<mapsto> [headerLine]]"
  have n: "Map.empty (pathOf 1669248000 1669334400) = (None :: csvFile option)" by simp
  have a: "Load sampleRemoteAll ?l Map.empty [''BTC-BUSD''] 1669248000 1669334400 =
      Inr (?l, ?fs1, Map.empty)"
    using Load_no_file_named_pairs [where fs = Map.empty, OF n, of "[''BTC-BUSD'']" sampleRemoteAll ?l]
    by (simp add: NewCCDepthLoader_def)
  have s: "?fs1 (pathOf 1669248000 1669334400) = Some [headerLine]" by simp
  have b: "Load sampleRemoteAll ?l ?fs1 [''ETH-BUSD''] 1669248000 1669334400 =
     Inr (?l\<lparr>records := [''ETH-BUSD'' \<mapsto> sampleDay]\<rparr>,
          [pathOf 1669248000 1669334400 \<mapsto> [headerLine, ''ETH-BUSD'' # sampleDay]],
          [''ETH-BUSD'' \<mapsto> sampleDay])"
    unfolding Load_file [where fs = ?fs1, OF s]
    by (simp add: loadExisting_def headerFile_read minutes_sample_one_day daysOf_sample_one_day
        NewCCDepthLoader_def loadPair_fetchPair fetchPair_sampleAll sampleDay_nonempty)
  have c: "Load sampleRemoteAll sampleEthLoader Map.empty [''BTC-BUSD''] 1669248000 1669334400 =
     Inr (sampleEthLoader, ?fs1, [''ETH-BUSD'' \<mapsto> sampleEthDay])"
    using Load_no_file_named_pairs [where fs = Map.empty, OF n, of "[''BTC-BUSD'']" sampleRemoteAll
        sampleEthLoader]
    by (simp add: sampleEthLoader_def)
  have d: "fetchPair sampleRemoteAll ''binance'' (daysOf 1669248000 1669334400) ''BTC-BUSD'' = Inr sampleDay"
    by (simp add: daysOf_sample_one_day fetchPair_sampleAll)
  show ?thesis using a b c d by simp
qed

end
